theory Spec2Isabelle
  imports Complex_Main "HOL-Library.AList"
begin

section \<open>Node records and the node store (src/types.ts, src/App.tsx)\<close>

text \<open>
  A \<open>NodeData\<close> object as it exists at run time. The TypeScript interface declares
  every property, but the state updaters of \<open>App.tsx\<close> build objects by spreading
  \<open>prev[nodeId]\<close>, which is \<open>undefined\<close> when the key is gone, so a stored object may
  lack properties. A property that is absent (reads as \<open>undefined\<close>) is \<open>None\<close>.
  \<open>parentId\<close> is \<open>string | null\<close>; \<open>depth\<close> is a number that starts at 0 and only
  ever has 1 added (\<open>undefined + 1\<close> is \<open>NaN\<close>).
\<close>

datatype parent_ref = Null | Ref string

datatype jsnum = Num nat | NaN

record NodeData =
  id' :: "string option"
  text' :: "string option"
  parentId :: "parent_ref option"
  depth :: "jsnum option"
  isExpanded :: "bool option"
  isLoading :: "bool option"
  childrenIds :: "string list option"

text \<open>The object \<open>{}\<close>, and the spread \<open>{...x}\<close> of a value that may be \<open>undefined\<close>.\<close>

definition empty_obj :: NodeData where
  "empty_obj = \<lparr>id' = None, text' = None, parentId = None, depth = None,
                 isExpanded = None, isLoading = None, childrenIds = None\<rparr>"

definition spread :: "NodeData option \<Rightarrow> NodeData" where
  "spread x = (case x of None \<Rightarrow> empty_obj | Some n \<Rightarrow> n)"

text \<open>\<open>x + 1\<close> on a depth that may be \<open>undefined\<close> or \<open>NaN\<close>.\<close>

definition js_add1 :: "jsnum option \<Rightarrow> jsnum" where
  "js_add1 x = (case x of Some (Num n) \<Rightarrow> Num (Suc n) | _ \<Rightarrow> NaN)"

text \<open>
  \<open>Record<string, NodeData>\<close>: an object used as a dictionary. Its keys are kept in
  insertion order (the identifiers are UUIDs, never array indices), which is the order
  \<open>Object.values\<close> reads them in. Writing a key replaces the value in place or appends
  the key (\<open>AList.update\<close>).
\<close>

type_synonym store = "(string \<times> NodeData) list"

text \<open>
  The read \<open>nodes[k]\<close>. The store is a plain object, so a key it does not own is
  looked up in \<open>Object.prototype\<close>: for the property names of \<open>Object.prototype\<close> the
  read gives a function (for \<open>__proto__\<close>: \<open>Object.prototype\<close> itself), a truthy value
  that has none of the properties of a node record and no own enumerable property. It is
  read here as the record without properties. In a spread \<open>{...prev[k]}\<close> such a value
  contributes nothing, as \<open>undefined\<close> does; the updaters below therefore spread
  \<open>map_of prev k\<close>.
\<close>

definition object_prototype_keys :: "string list" where
  "object_prototype_keys =
     [''constructor'', ''__proto__'', ''hasOwnProperty'', ''isPrototypeOf'',
      ''propertyIsEnumerable'', ''toLocaleString'', ''toString'', ''valueOf'',
      ''__defineGetter__'', ''__defineSetter__'', ''__lookupGetter__'', ''__lookupSetter__'']"

definition js_get :: "store \<Rightarrow> string \<Rightarrow> NodeData option" where
  "js_get obj k =
     (case map_of obj k of
        Some n \<Rightarrow> Some n
      | None \<Rightarrow> if k \<in> set object_prototype_keys then Some empty_obj else None)"

record app_state =
  nodes :: store
  rootId :: "string option"
  inputQuery :: string
  isGenerating :: bool
  focusedNodeId :: "string option"

section \<open>The expansion controller (src/App.tsx)\<close>

text \<open>
  An \<open>async\<close> handler runs synchronously up to its \<open>await\<close> and is resumed when the
  awaited promise settles. Its synchronous part either returns, throws, or is left
  awaiting \<open>generateSubIdeas(concept, contextNodes)\<close> with the variables its continuation
  has captured. \<open>setNodes(prev => ...)\<close> applies the updater to the current store.
\<close>

datatype js_error = TypeError | SyntaxError | ServiceError

datatype request = Request (concept: "string option") (contextNodes: "string option list")

datatype 'c outcome =
    Returned app_state
  | Thrown js_error app_state
  | Awaiting request 'c app_state

datatype settled = Fulfilled "string list" | Rejected

text \<open>
  The loop of \<open>handleExpandNode\<close> that collects the ancestors' texts:
  \<open>while (curr && curr.parentId) { if (nodes[curr.parentId]) path.unshift(...); curr = nodes[curr.parentId || '']; }\<close>.
  A \<open>parentId\<close> that is \<open>undefined\<close>, \<open>null\<close> or the empty string is falsy.
  The loop does not end on a store whose parent links form a cycle: the result is then
  \<open>None\<close>.
\<close>

partial_function (option) path_loop ::
  "store \<Rightarrow> NodeData option \<Rightarrow> string option list \<Rightarrow> string option list option" where
  "path_loop captured curr' path =
     (case curr' of
        None \<Rightarrow> Some path
      | Some c \<Rightarrow>
          (case parentId c of
             Some (Ref p) \<Rightarrow>
               if p = [] then Some path
               else path_loop captured (js_get captured p)
                      (case js_get captured p of Some pn \<Rightarrow> text' pn # path | None \<Rightarrow> path)
           | _ \<Rightarrow> Some path))"

text \<open>\<open>prev => ({...prev, [nodeId]: {...prev[nodeId], isLoading: true}})\<close>\<close>

definition handleExpandNode_loading :: "string \<Rightarrow> store \<Rightarrow> store" where
  "handleExpandNode_loading nodeId prev =
     AList.update nodeId ((spread (map_of prev nodeId))\<lparr>isLoading := Some True\<rparr>) prev"

text \<open>
  The updater that commits the generated ideas (the same code in \<open>handleStartBrainstorm\<close>
  with \<open>depth: 1\<close> and in \<open>handleExpandNode\<close> with \<open>depth: node.depth + 1\<close>). \<open>uuids\<close>
  are the values the successive \<open>uuidv4()\<close> calls return, one per idea (UUID strings:
  none is \<open>__proto__\<close>, which the assignment \<open>newNodes[childId] = ...\<close> would not store
  as a key).
\<close>

definition new_child :: "string \<Rightarrow> string \<Rightarrow> string \<Rightarrow> jsnum \<Rightarrow> NodeData" where
  "new_child childId idea nodeId d =
     \<lparr>id' = Some childId, text' = Some idea, parentId = Some (Ref nodeId), depth = Some d,
      isExpanded = Some False, isLoading = Some False, childrenIds = Some []\<rparr>"

definition commit_ideas :: "string \<Rightarrow> jsnum \<Rightarrow> string list \<Rightarrow> string list \<Rightarrow> store \<Rightarrow> store" where
  "commit_ideas nodeId d ideas uuids prev =
     (let updatedParent = (spread (map_of prev nodeId))\<lparr>isExpanded := Some True, isLoading := Some False\<rparr>;
          newNodes = AList.update nodeId updatedParent prev;
          childIds = map snd (zip ideas uuids);
          newNodes' = fold (\<lambda>(idea, childId). AList.update childId (new_child childId idea nodeId d))
                        (zip ideas uuids) newNodes
      in AList.map_entry nodeId (\<lambda>n. n\<lparr>childrenIds := Some childIds\<rparr>) newNodes')"

text \<open>\<open>prev => ({...prev, [nodeId]: {...prev[nodeId], isLoading: false}})\<close> of the catch blocks.\<close>

definition catch_reset :: "string \<Rightarrow> store \<Rightarrow> store" where
  "catch_reset nodeId prev =
     AList.update nodeId ((spread (map_of prev nodeId))\<lparr>isLoading := Some False\<rparr>) prev"

text \<open>
  \<open>handleExpandNode(nodeId)\<close>. \<open>captured\<close> is the \<open>nodes\<close> value of the render that created
  the handler (\<open>useCallback(..., [nodes])\<close>): the guard, the path and \<open>node.depth\<close> read it,
  while the updaters run on the current store of \<open>st\<close>.
\<close>

definition handleExpandNode ::
  "store \<Rightarrow> string \<Rightarrow> app_state \<Rightarrow> (string \<times> NodeData) outcome option" where
  "handleExpandNode captured nodeId st =
     (case js_get captured nodeId of
        None \<Rightarrow> Some (Returned st)
      | Some node \<Rightarrow>
          if isLoading node = Some True then Some (Returned st)
          else (case childrenIds node of
                  None \<Rightarrow> Some (Thrown TypeError st)
                | Some cs \<Rightarrow>
                    if length cs > 0 then Some (Returned st)
                    else
                      (let st1 = st\<lparr>focusedNodeId := Some nodeId\<rparr>;
                           st2 = st1\<lparr>nodes := handleExpandNode_loading nodeId (nodes st1)\<rparr>
                       in map_option (\<lambda>path. Awaiting (Request (text' node) path) (nodeId, node) st2)
                            (path_loop captured (Some node) []))))"

definition handleExpandNode_then ::
  "string \<times> NodeData \<Rightarrow> settled \<Rightarrow> string list \<Rightarrow> app_state \<Rightarrow> app_state" where
  "handleExpandNode_then k res uuids st =
     (case res of
        Fulfilled ideas \<Rightarrow>
          st\<lparr>nodes := commit_ideas (fst k) (js_add1 (depth (snd k))) ideas uuids (nodes st)\<rparr>
      | Rejected \<Rightarrow> st\<lparr>nodes := catch_reset (fst k) (nodes st)\<rparr>)"

text \<open>
  \<open>handleStartBrainstorm()\<close>. \<open>query\<close> is the \<open>inputQuery\<close> the handler has captured
  (\<open>useCallback(..., [inputQuery])\<close>) and \<open>newRootId\<close> the value of \<open>uuidv4()\<close>.
  \<open>String.prototype.trim\<close> is modelled on the ASCII white space characters.
\<close>

definition js_space :: "char \<Rightarrow> bool" where
  "js_space c = (c \<in> set [CHR 0x20, CHR 0x09, CHR 0x0A, CHR 0x0B, CHR 0x0C, CHR 0x0D])"

definition js_trim :: "string \<Rightarrow> string" where
  "js_trim s = rev (dropWhile js_space (rev (dropWhile js_space s)))"

definition newRoot :: "string \<Rightarrow> string \<Rightarrow> NodeData" where
  "newRoot newRootId query =
     \<lparr>id' = Some newRootId, text' = Some query, parentId = Some Null, depth = Some (Num 0),
      isExpanded = Some False, isLoading = Some True, childrenIds = Some []\<rparr>"

definition handleStartBrainstorm :: "string \<Rightarrow> string \<Rightarrow> app_state \<Rightarrow> string outcome" where
  "handleStartBrainstorm query newRootId st =
     (if js_trim query = [] then Returned st
      else
        (let st1 = st\<lparr>isGenerating := True\<rparr>;
             st2 = st1\<lparr>nodes := [(newRootId, newRoot newRootId query)]\<rparr>;
             st3 = st2\<lparr>rootId := Some newRootId\<rparr>;
             st4 = st3\<lparr>focusedNodeId := Some newRootId\<rparr>
         in Awaiting (Request (Some query) []) newRootId st4))"

definition handleStartBrainstorm_then ::
  "string \<Rightarrow> settled \<Rightarrow> string list \<Rightarrow> app_state \<Rightarrow> app_state" where
  "handleStartBrainstorm_then newRootId res uuids st =
     (let st1 = (case res of
                   Fulfilled ideas \<Rightarrow>
                     st\<lparr>nodes := commit_ideas newRootId (Num 1) ideas uuids (nodes st)\<rparr>
                 | Rejected \<Rightarrow> st\<lparr>nodes := catch_reset newRootId (nodes st)\<rparr>)
      in st1\<lparr>isGenerating := False, inputQuery := []\<rparr>)"

text \<open>\<open>handleReset()\<close> (the viewport transform is not part of the model).\<close>

definition handleReset :: "app_state \<Rightarrow> app_state" where
  "handleReset st = st\<lparr>nodes := [], rootId := None, focusedNodeId := None\<rparr>"

section \<open>The idea-generation wrapper (src/services/geminiService.ts)\<close>

text \<open>
  The body of \<open>generateSubIdeas\<close> runs inside \<open>try { ... } catch (error) { ... }\<close>.
  What can throw in it is written as a value of \<open>js_error + 'a\<close> (\<open>Inl\<close> the exception):
  the call \<open>ai.models.generateContent\<close>, which yields \<open>response.text\<close> (a string or
  \<open>undefined\<close>) and is a parameter here, as a function of the concept and the context
  path put into the prompt; \<open>JSON.parse\<close>, also a parameter; and the property read
  \<open>parsed.ideas\<close>, which throws on \<open>null\<close>.
\<close>

datatype json =
    JNull
  | JBool bool
  | JNum real
  | JStr string
  | JArr "json list"
  | JObj "(string \<times> json) list"

definition try_catch :: "js_error + 'a \<Rightarrow> (js_error \<Rightarrow> js_error + 'a) \<Rightarrow> js_error + 'a" where
  "try_catch body handler = (case body of Inl e \<Rightarrow> handler e | Inr v \<Rightarrow> Inr v)"

definition bind_js :: "js_error + 'a \<Rightarrow> ('a \<Rightarrow> js_error + 'b) \<Rightarrow> js_error + 'b" where
  "bind_js m f = (case m of Inl e \<Rightarrow> Inl e | Inr v \<Rightarrow> f v)"

text \<open>\<open>parsed.ideas\<close>: a property read on a parsed JSON value (\<open>None\<close> is \<open>undefined\<close>).\<close>

definition get_ideas :: "json \<Rightarrow> js_error + json option" where
  "get_ideas parsed =
     (case parsed of
        JNull \<Rightarrow> Inl TypeError
      | JObj kvs \<Rightarrow> Inr (map_of kvs ''ideas'')
      | _ \<Rightarrow> Inr None)"

text \<open>\<open>x || []\<close>: the falsy values are \<open>undefined\<close>, \<open>null\<close>, \<open>false\<close>, \<open>0\<close> and \<open>""\<close>.\<close>

definition or_empty :: "json option \<Rightarrow> json" where
  "or_empty x =
     (case x of
        None \<Rightarrow> JArr []
      | Some JNull \<Rightarrow> JArr []
      | Some (JBool b) \<Rightarrow> (if b then JBool b else JArr [])
      | Some (JNum r) \<Rightarrow> (if r = 0 then JArr [] else JNum r)
      | Some (JStr s) \<Rightarrow> (if s = [] then JArr [] else JStr s)
      | Some v \<Rightarrow> v)"

definition generateSubIdeas ::
  "(string option \<Rightarrow> string option list \<Rightarrow> js_error + string option) \<Rightarrow>
   (string \<Rightarrow> js_error + json) \<Rightarrow> string option \<Rightarrow> string option list \<Rightarrow> js_error + json" where
  "generateSubIdeas generateContent JSON_parse concept' contextNodes' =
     try_catch
       (bind_js (generateContent concept' contextNodes') (\<lambda>response_text.
          case response_text of
            None \<Rightarrow> Inr (JArr [])
          | Some t \<Rightarrow>
              if t = [] then Inr (JArr [])
              else bind_js (JSON_parse t) (\<lambda>parsed.
                     bind_js (get_ideas parsed) (\<lambda>ideas. Inr (or_empty ideas)))))
       (\<lambda>error. Inr (JArr [JStr ''Error generating'', JStr ''Try again'']))"

text \<open>
  How the promise of \<open>generateSubIdeas\<close> settles for the handler that awaits it. The
  declared result type is \<open>string[]\<close>; a value outside it is not given a meaning.
\<close>

fun as_string :: "json \<Rightarrow> string option" where
  "as_string (JStr s) = Some s"
| "as_string _ = None"

definition settle :: "js_error + json \<Rightarrow> settled option" where
  "settle r =
     (case r of
        Inl e \<Rightarrow> Some Rejected
      | Inr (JArr vs) \<Rightarrow>
          (if list_all (\<lambda>v. as_string v \<noteq> None) vs
           then Some (Fulfilled (map (\<lambda>v. case as_string v of Some s \<Rightarrow> s | None \<Rightarrow> []) vs))
           else None)
      | Inr _ \<Rightarrow> None)"

section \<open>The layout engine (src/utils/layout.ts, src/constants.ts)\<close>

definition MAX_DEPTH :: nat where
  "MAX_DEPTH = 5"

definition RADIUS_STEP :: real where
  "RADIUS_STEP = 220"

subsection \<open>The hierarchy functions of the d3 library\<close>

text \<open>
  \<open>calculateTreeLayout\<close> calls \<open>d3.stratify\<close>, \<open>d3.tree\<close>, \<open>root.descendants()\<close> and
  \<open>root.links()\<close>. The d3 library is a dependency of the repository, not part of it;
  the definitions below follow what d3-hierarchy does with the accessors
  \<open>.id(d => d.id)\<close> and \<open>.parentId(d => d.parentId)\<close>:

  \<^item> a datum has a key when its \<open>id\<close> is neither \<open>undefined\<close> nor the empty string, and
    names a parent when its \<open>parentId\<close> is neither \<open>undefined\<close>, \<open>null\<close> nor empty;
  \<^item> \<open>stratify\<close> goes through the data in order; a datum that names a parent is appended
    to the children of the one datum with that key (\<open>missing\<close> when there is none,
    \<open>ambiguous\<close> when there are several), a datum that names none is the root
    (\<open>multiple roots\<close> when there is a second one, \<open>no root\<close> when there is none);
  \<^item> it then walks the root's subtree, giving each node its depth, and throws \<open>cycle\<close>
    when it visits fewer nodes than there are data;
  \<^item> \<open>descendants()\<close> lists the nodes of the hierarchy level by level, each level in the
    order of its parents and, under one parent, in the order of the data;
  \<^item> \<open>links()\<close> has one entry \<open>{source: node.parent, target: node}\<close> for every node but
    the root, in the same order.

  A hierarchy is represented by the list \<open>descendants()\<close> of its nodes. A node carries its
  datum, its depth, its position in the tree (the child indices on the way from the root)
  and its parent. The angle \<open>d3.tree\<close> gives a node (its \<open>x\<close>) is a parameter: any
  function \<open>ang\<close> of the position in the tree.
\<close>

definition node_key :: "NodeData \<Rightarrow> string option" where
  "node_key d = (case id' d of Some s \<Rightarrow> (if s = [] then None else Some s) | None \<Rightarrow> None)"

definition parent_key :: "NodeData \<Rightarrow> string option" where
  "parent_key d =
     (case parentId d of Some (Ref p) \<Rightarrow> (if p = [] then None else Some p) | _ \<Rightarrow> None)"

datatype stratify_error = Missing string | Ambiguous string | MultipleRoots | NoRoot | Cycle

fun link_nodes ::
  "NodeData list \<Rightarrow> NodeData list \<Rightarrow> NodeData option \<Rightarrow> stratify_error + NodeData option" where
  "link_nodes data [] root' = Inr root'"
| "link_nodes data (d # ds) root' =
     (case parent_key d of
        Some k \<Rightarrow>
          (case filter (\<lambda>e. node_key e = Some k) data of
             [] \<Rightarrow> Inl (Missing k)
           | [p] \<Rightarrow> link_nodes data ds root'
           | _ \<Rightarrow> Inl (Ambiguous k))
      | None \<Rightarrow>
          (case root' of
             Some r \<Rightarrow> Inl MultipleRoots
           | None \<Rightarrow> link_nodes data ds (Some d)))"

definition children_of :: "NodeData list \<Rightarrow> NodeData \<Rightarrow> NodeData list" where
  "children_of data d =
     (case node_key d of
        None \<Rightarrow> []
      | Some k \<Rightarrow> filter (\<lambda>e. parent_key e = Some k) data)"

datatype hnode = HNode (hdata: NodeData) (hdepth: nat) (hpath: "nat list") (hparent: "hnode option")

definition children_nodes :: "NodeData list \<Rightarrow> hnode \<Rightarrow> hnode list" where
  "children_nodes data h =
     map (\<lambda>(i, c). HNode c (Suc (hdepth h)) (hpath h @ [i]) (Some h))
       (enumerate 0 (children_of data (hdata h)))"

text \<open>
  The traversal (\<open>node.each\<close>, the iterator behind \<open>descendants()\<close>): a level, then the
  children of its nodes. \<open>None\<close> when it does not end.
\<close>

partial_function (option) each_level :: "NodeData list \<Rightarrow> hnode list \<Rightarrow> hnode list option" where
  "each_level data level =
     (if level = [] then Some []
      else Option.bind (each_level data (concat (map (children_nodes data) level)))
             (\<lambda>rest. Some (level @ rest)))"

definition stratify :: "NodeData list \<Rightarrow> (stratify_error + hnode list) option" where
  "stratify data =
     (case link_nodes data data None of
        Inl e \<Rightarrow> Some (Inl e)
      | Inr None \<Rightarrow> Some (Inl NoRoot)
      | Inr (Some r) \<Rightarrow>
          (case each_level data [HNode r 0 [] None] of
             None \<Rightarrow> None
           | Some hs \<Rightarrow> if length hs < length data then Some (Inl Cycle) else Some (Inr hs)))"

definition hlinks :: "hnode list \<Rightarrow> (hnode \<times> hnode) list" where
  "hlinks hs = concat (map (\<lambda>h. case hparent h of None \<Rightarrow> [] | Some p \<Rightarrow> [(p, h)]) hs)"

subsection \<open>calculateTreeLayout\<close>

text \<open>
  The objects \<open>calculateTreeLayout\<close> builds: a positioned node \<open>{id, data, x, y, parent}\<close>
  whose \<open>parent\<close> is \<open>null\<close> or \<open>{id, data, x, y}\<close>. Numbers are real numbers here: the
  rounding of the floating-point operations is not modelled.
\<close>

record ParentInfo =
  pid :: "string option"
  pdata :: NodeData
  px :: real
  py :: real

record TreeLayoutNode =
  lid :: "string option"
  ldata :: NodeData
  lx :: real
  ly :: real
  lparent :: "ParentInfo option"

record layout =
  lnodes :: "TreeLayoutNode list"
  links :: "(TreeLayoutNode \<times> TreeLayoutNode) list"

definition polar_x :: "(nat list \<Rightarrow> real) \<Rightarrow> hnode \<Rightarrow> real" where
  "polar_x ang d = (real (hdepth d) * RADIUS_STEP) * cos (ang (hpath d) - pi / 2)"

definition polar_y :: "(nat list \<Rightarrow> real) \<Rightarrow> hnode \<Rightarrow> real" where
  "polar_y ang d = (real (hdepth d) * RADIUS_STEP) * sin (ang (hpath d) - pi / 2)"

definition toLayoutNode :: "(nat list \<Rightarrow> real) \<Rightarrow> hnode \<Rightarrow> TreeLayoutNode" where
  "toLayoutNode ang d =
     \<lparr>lid = id' (hdata d), ldata = hdata d, lx = polar_x ang d, ly = polar_y ang d,
      lparent = (case hparent d of
                   None \<Rightarrow> None
                 | Some p \<Rightarrow> Some \<lparr>pid = id' (hdata p), pdata = hdata p,
                                   px = polar_x ang p, py = polar_y ang p\<rparr>)\<rparr>"

definition toLinks ::
  "TreeLayoutNode list \<Rightarrow> (hnode \<times> hnode) list \<Rightarrow> (TreeLayoutNode \<times> TreeLayoutNode) list" where
  "toLinks layoutNodes ls =
     concat (map (\<lambda>(s, t).
        case find (\<lambda>n. lid n = id' (hdata s)) layoutNodes of
          None \<Rightarrow> []
        | Some sourceNode \<Rightarrow>
            (case find (\<lambda>n. lid n = id' (hdata t)) layoutNodes of
               None \<Rightarrow> []
             | Some targetNode \<Rightarrow> [(sourceNode, targetNode)])) ls)"

definition calculateTreeLayout :: "(nat list \<Rightarrow> real) \<Rightarrow> store \<Rightarrow> string \<Rightarrow> layout option" where
  "calculateTreeLayout ang nodes' rootId' =
     (if rootId' = [] \<or> js_get nodes' rootId' = None then Some \<lparr>lnodes = [], links = []\<rparr>
      else
        (case stratify (map snd nodes') of
           None \<Rightarrow> None
         | Some (Inl e) \<Rightarrow> Some \<lparr>lnodes = [], links = []\<rparr>
         | Some (Inr hs) \<Rightarrow>
             (let layoutNodes = map (toLayoutNode ang) hs
              in Some \<lparr>lnodes = layoutNodes, links = toLinks layoutNodes (hlinks hs)\<rparr>)))"

text \<open>The \<open>k\<close>-th level of the traversal that starts at the node \<open>r\<close>.\<close>

primrec nth_level :: "NodeData list \<Rightarrow> hnode \<Rightarrow> nat \<Rightarrow> hnode list" where
  "nth_level data r 0 = [r]"
| "nth_level data r (Suc n) = concat (map (children_nodes data) (nth_level data r n))"

text \<open>
  The records on the way from a node of the hierarchy up to its root, and what links
  them: each record names the key of the next one as its parent, and the last one names
  no parent.
\<close>

fun hchain :: "hnode \<Rightarrow> NodeData list" where
  "hchain (HNode d n p None) = [d]"
| "hchain (HNode d n p (Some q)) = d # hchain q"

fun linked :: "hnode \<Rightarrow> bool" where
  "linked (HNode d n p None) \<longleftrightarrow> parent_key d = None"
| "linked (HNode d n p (Some q)) \<longleftrightarrow>
     parent_key d \<noteq> None \<and> parent_key d = node_key (hdata q) \<and> linked q"

definition good_node :: "NodeData list \<Rightarrow> hnode \<Rightarrow> bool" where
  "good_node data h \<longleftrightarrow>
     set (hchain h) \<subseteq> set data \<and> distinct (hchain h) \<and> length (hchain h) = Suc (hdepth h) \<and> linked h"

section \<open>The node component (src/components/MindMapNode.tsx)\<close>

text \<open>
  What a click on a rendered node does. \<open>hasChildren\<close> is computed when the component
  renders; \<open>data.childrenIds.length\<close> throws there when the property is absent
  (\<open>None\<close>). Otherwise the click is ignored or calls \<open>onExpand(data.id)\<close>.
\<close>

datatype click = Ignored | Expand "string option"

definition isMaxDepth :: "NodeData \<Rightarrow> bool" where
  "isMaxDepth data = (case depth data of Some (Num d) \<Rightarrow> d \<ge> MAX_DEPTH | _ \<Rightarrow> False)"

definition handleClick :: "NodeData \<Rightarrow> click option" where
  "handleClick data =
     (case childrenIds data of
        None \<Rightarrow> None
      | Some cs \<Rightarrow>
          Some (if isLoading data = Some True \<or> isMaxDepth data \<or> length cs > 0 then Ignored
                else Expand (id' data)))"

section \<open>The application as the user drives it (src/App.tsx)\<close>

text \<open>
  The states the application can reach. \<open>cur\<close> is the current React state; \<open>shown\<close> is
  the state of the last render: the handlers and the layout the user acts on were created
  from it, and it may lag behind \<open>cur\<close>. The continuations of the calls that await the
  collaborator are kept with the variables they captured. The events are what the JSX
  offers: typing and starting while no root is shown and nothing is being generated,
  resetting and centring while a root is shown, clicking a node of the shown layout;
  besides these a render, and the settling of an awaited promise (with any outcome, and
  with UUIDs that are distinct, not yet keys of the store and not the identifier the
  continuation holds).
\<close>

record ui_state =
  cur :: app_state
  shown :: app_state
  waiting_root :: "string list"
  waiting_expand :: "(string \<times> NodeData) list"

definition initial_state :: app_state where
  "initial_state = \<lparr>nodes = [], rootId = None, inputQuery = [], isGenerating = False,
                     focusedNodeId = None\<rparr>"

definition truthy_id :: "string option \<Rightarrow> bool" where
  "truthy_id x = (case x of None \<Rightarrow> False | Some s \<Rightarrow> s \<noteq> [])"

text \<open>\<open>calculateTreeLayout(nodes, rootId || '')\<close> of a render.\<close>

definition layout_of :: "(nat list \<Rightarrow> real) \<Rightarrow> app_state \<Rightarrow> layout option" where
  "layout_of ang st =
     calculateTreeLayout ang (nodes st) (case rootId st of None \<Rightarrow> [] | Some s \<Rightarrow> s)"

definition fresh_uuids :: "string list \<Rightarrow> settled \<Rightarrow> store \<Rightarrow> bool" where
  "fresh_uuids uuids res prev \<longleftrightarrow>
     distinct uuids \<and> set uuids \<inter> set (map fst prev) = {} \<and>
     (case res of Fulfilled ideas \<Rightarrow> length uuids = length ideas | Rejected \<Rightarrow> uuids = [])"

inductive ui_reachable :: "ui_state \<Rightarrow> bool" where
  init:
    "ui_reachable \<lparr>cur = initial_state, shown = initial_state,
                    waiting_root = [], waiting_expand = []\<rparr>"
| render:
    "ui_reachable s \<Longrightarrow> ui_reachable (s\<lparr>shown := cur s\<rparr>)"
| typing:
    "ui_reachable s \<Longrightarrow> \<not> truthy_id (rootId (shown s)) \<Longrightarrow> \<not> isGenerating (shown s) \<Longrightarrow>
     ui_reachable (s\<lparr>cur := (cur s)\<lparr>inputQuery := q\<rparr>\<rparr>)"
| start:
    "ui_reachable s \<Longrightarrow> \<not> truthy_id (rootId (shown s)) \<Longrightarrow> \<not> isGenerating (shown s) \<Longrightarrow>
     handleStartBrainstorm (inputQuery (shown s)) newRootId (cur s) = Awaiting rq k st' \<Longrightarrow>
     ui_reachable (s\<lparr>cur := st', waiting_root := k # waiting_root s\<rparr>)"
| reset:
    "ui_reachable s \<Longrightarrow> truthy_id (rootId (shown s)) \<Longrightarrow>
     ui_reachable (s\<lparr>cur := handleReset (cur s)\<rparr>)"
| centre:
    "ui_reachable s \<Longrightarrow> truthy_id (rootId (shown s)) \<Longrightarrow>
     ui_reachable (s\<lparr>cur := (cur s)\<lparr>focusedNodeId := rootId (shown s)\<rparr>\<rparr>)"
| click:
    "ui_reachable s \<Longrightarrow> layout_of ang (shown s) = Some L \<Longrightarrow> n \<in> set (lnodes L) \<Longrightarrow>
     handleClick (ldata n) = Some (Expand (Some nodeId)) \<Longrightarrow>
     handleExpandNode (nodes (shown s)) nodeId (cur s) = Some (Awaiting rq k st') \<Longrightarrow>
     ui_reachable (s\<lparr>cur := st', waiting_expand := k # waiting_expand s\<rparr>)"
| settle_root:
    "ui_reachable s \<Longrightarrow> k \<in> set (waiting_root s) \<Longrightarrow> fresh_uuids uuids res (nodes (cur s)) \<Longrightarrow>
     k \<notin> set uuids \<Longrightarrow>
     ui_reachable (s\<lparr>cur := handleStartBrainstorm_then k res uuids (cur s),
                      waiting_root := remove1 k (waiting_root s)\<rparr>)"
| settle_expand:
    "ui_reachable s \<Longrightarrow> k \<in> set (waiting_expand s) \<Longrightarrow> fresh_uuids uuids res (nodes (cur s)) \<Longrightarrow>
     fst k \<notin> set uuids \<Longrightarrow>
     ui_reachable (s\<lparr>cur := handleExpandNode_then k res uuids (cur s),
                      waiting_expand := remove1 k (waiting_expand s)\<rparr>)"

section \<open>Invariants of the store\<close>

text \<open>
  The tree invariant of the data model: the store is empty or exactly one record has
  \<open>parentId = null\<close>; a record with \<open>parentId = null\<close> has depth 0; every other record
  names a parent that is in the store and is one deeper than it.
\<close>

definition depth_consistent :: "store \<Rightarrow> NodeData \<Rightarrow> bool" where
  "depth_consistent nodes' n =
     (case parentId n of
        None \<Rightarrow> False
      | Some Null \<Rightarrow> depth n = Some (Num 0)
      | Some (Ref p) \<Rightarrow>
          (case map_of nodes' p of
             None \<Rightarrow> False
           | Some pn \<Rightarrow> (case depth pn of
                          Some (Num d) \<Rightarrow> depth n = Some (Num (Suc d))
                        | _ \<Rightarrow> False)))"

definition tree_invariant :: "store \<Rightarrow> bool" where
  "tree_invariant nodes' \<longleftrightarrow>
     (nodes' = [] \<or> length (filter (\<lambda>(k, n). parentId n = Some Null) nodes') = 1) \<and>
     list_all (\<lambda>(k, n). depth_consistent nodes' n) nodes'"

text \<open>The depth of a record is a number of at most \<open>MAX_DEPTH\<close>.\<close>

definition depth_at_most_max :: "NodeData \<Rightarrow> bool" where
  "depth_at_most_max n = (case depth n of Some (Num d) \<Rightarrow> d \<le> MAX_DEPTH | _ \<Rightarrow> False)"

text \<open>
  What the proof of the depth bound carries along: a stored record either has its key as
  \<open>id\<close> and a depth of at most \<open>MAX_DEPTH\<close>, or lacks \<open>id\<close>, \<open>parentId\<close> and \<open>depth\<close>
  altogether; the keys are distinct; the record under \<open>rootId\<close> has its key as \<open>id\<close> and
  names no parent; and every waiting expansion captured a node less deep than
  \<open>MAX_DEPTH\<close>.
\<close>

definition entry_ok :: "string \<Rightarrow> NodeData \<Rightarrow> bool" where
  "entry_ok k n \<longleftrightarrow>
     (id' n = Some k \<and> (\<exists>d\<le>MAX_DEPTH. depth n = Some (Num d)))
     \<or> (id' n = None \<and> parentId n = None \<and> depth n = None)"

definition store_ok :: "app_state \<Rightarrow> bool" where
  "store_ok st \<longleftrightarrow>
     distinct (map fst (nodes st)) \<and>
     (\<forall>(k, n)\<in>set (nodes st). entry_ok k n) \<and>
     (\<forall>r. rootId st = Some r \<longrightarrow>
        (\<exists>n. map_of (nodes st) r = Some n \<and> id' n = Some r \<and> parent_key n = None))"

definition ui_ok :: "ui_state \<Rightarrow> bool" where
  "ui_ok s \<longleftrightarrow>
     store_ok (cur s) \<and> store_ok (shown s) \<and>
     (\<forall>(i, node)\<in>set (waiting_expand s). \<exists>d<MAX_DEPTH. depth node = Some (Num d))"

text \<open>
  Parent links that descend along a rank \<open>f\<close>: every record that names a parent names
  the key of a stored record of smaller rank. Such links form no cycle. In a valid tree
  the depth is such a rank.
\<close>

definition link_ok :: "(string \<Rightarrow> nat) \<Rightarrow> string set \<Rightarrow> string \<Rightarrow> NodeData \<Rightarrow> bool" where
  "link_ok f K k n = (case parentId n of Some (Ref p) \<Rightarrow> p \<in> K \<and> f p < f k | _ \<Rightarrow> True)"

definition parents_ranked :: "(string \<Rightarrow> nat) \<Rightarrow> store \<Rightarrow> bool" where
  "parents_ranked f nodes' \<longleftrightarrow> list_all (\<lambda>(k, n). link_ok f (set (map fst nodes')) k n) nodes'"

definition depth_rank :: "store \<Rightarrow> string \<Rightarrow> nat" where
  "depth_rank nodes' k =
     (case map_of nodes' k of
        Some n \<Rightarrow> (case depth n of Some (Num d) \<Rightarrow> d | _ \<Rightarrow> 0)
      | None \<Rightarrow> 0)"

section \<open>Valid trees\<close>

text \<open>
  A store and a root identifier that form a valid tree: the keys are distinct and
  non-empty, every record is stored under its own \<open>id\<close>, the record at \<open>rootId\<close> has
  \<open>parentId = null\<close> and depth 0, every other record names a parent that is in the store,
  lists it among its children and is one less deep, and every \<open>childrenIds\<close> is a
  duplicate-free list of stored records whose \<open>parentId\<close> is the record listing them.
\<close>

definition valid_node :: "store \<Rightarrow> string \<Rightarrow> string \<Rightarrow> NodeData \<Rightarrow> bool" where
  "valid_node nodes' rootId' k n \<longleftrightarrow>
     k \<noteq> [] \<and> id' n = Some k \<and>
     (case childrenIds n of
        None \<Rightarrow> False
      | Some cs \<Rightarrow>
          distinct cs \<and>
          list_all (\<lambda>c. case map_of nodes' c of None \<Rightarrow> False
                        | Some cn \<Rightarrow> parentId cn = Some (Ref k)) cs) \<and>
     (if k = rootId' then parentId n = Some Null \<and> depth n = Some (Num 0)
      else (case parentId n of
              Some (Ref p) \<Rightarrow>
                (case map_of nodes' p of
                   None \<Rightarrow> False
                 | Some pn \<Rightarrow>
                     depth n = Some (js_add1 (depth pn)) \<and> depth n \<noteq> Some NaN \<and>
                     (case childrenIds pn of None \<Rightarrow> False | Some cs \<Rightarrow> k \<in> set cs))
            | _ \<Rightarrow> False))"

definition valid_tree :: "store \<Rightarrow> string \<Rightarrow> bool" where
  "valid_tree nodes' rootId' \<longleftrightarrow>
     distinct (map fst nodes') \<and> map_of nodes' rootId' \<noteq> None \<and>
     list_all (\<lambda>(k, n). valid_node nodes' rootId' k n) nodes'"

text \<open>The identifiers reachable from \<open>rootId\<close> along \<open>childrenIds\<close>.\<close>

inductive_set reach :: "store \<Rightarrow> string \<Rightarrow> string set" for nodes' :: store and rootId' :: string where
  root: "map_of nodes' rootId' \<noteq> None \<Longrightarrow> rootId' \<in> reach nodes' rootId'"
| child: "p \<in> reach nodes' rootId' \<Longrightarrow> map_of nodes' p = Some pn \<Longrightarrow> childrenIds pn = Some cs \<Longrightarrow>
          c \<in> set cs \<Longrightarrow> map_of nodes' c \<noteq> None \<Longrightarrow> c \<in> reach nodes' rootId'"

section \<open>Running the handlers\<close>

text \<open>
  \<open>handleExpandNode\<close> run to its end with nothing else happening in between: the
  synchronous part, the awaited \<open>generateSubIdeas(node.text, path)\<close>, the continuation.
  \<open>None\<close>: the path loop does not end, or the wrapper resolved with a value outside
  its declared type.
\<close>

definition handleExpandNode_run ::
  "(string option \<Rightarrow> string option list \<Rightarrow> js_error + string option) \<Rightarrow>
   (string \<Rightarrow> js_error + json) \<Rightarrow> store \<Rightarrow> string \<Rightarrow> string list \<Rightarrow> app_state \<Rightarrow>
   (js_error + app_state) option" where
  "handleExpandNode_run generateContent JSON_parse captured nodeId uuids st =
     (case handleExpandNode captured nodeId st of
        None \<Rightarrow> None
      | Some (Returned st') \<Rightarrow> Some (Inr st')
      | Some (Thrown e st') \<Rightarrow> Some (Inl e)
      | Some (Awaiting rq k st1) \<Rightarrow>
          map_option (\<lambda>res. Inr (handleExpandNode_then k res uuids st1))
            (settle (generateSubIdeas generateContent JSON_parse (concept rq) (contextNodes rq))))"

text \<open>
  Two calls \<open>handleExpandNode(nodeId)\<close> in a row, the second before the first one's
  promise settles; the first through a handler that captured \<open>captured1\<close>, the second
  through one that captured \<open>captured2\<close>. Then the awaited promises settle in order with
  the given responses. The result is the number of collaborator calls made and the final
  state.
\<close>

definition begin_expand ::
  "store \<Rightarrow> string \<Rightarrow> app_state \<Rightarrow> ((string \<times> NodeData) list \<times> app_state) option" where
  "begin_expand captured nodeId st =
     (case handleExpandNode captured nodeId st of
        None \<Rightarrow> None
      | Some (Returned st') \<Rightarrow> Some ([], st')
      | Some (Thrown e st') \<Rightarrow> Some ([], st')
      | Some (Awaiting rq k st') \<Rightarrow> Some ([k], st'))"

definition expand_twice ::
  "store \<Rightarrow> store \<Rightarrow> string \<Rightarrow> (settled \<times> string list) list \<Rightarrow> app_state \<Rightarrow>
   (nat \<times> app_state) option" where
  "expand_twice captured1 captured2 nodeId responses st =
     (case begin_expand captured1 nodeId st of
        None \<Rightarrow> None
      | Some (ks1, st1) \<Rightarrow>
          (case begin_expand captured2 nodeId st1 of
             None \<Rightarrow> None
           | Some (ks2, st2) \<Rightarrow>
               Some (length (ks1 @ ks2),
                     fold (\<lambda>(k, (res, uuids)) s. handleExpandNode_then k res uuids s)
                       (zip (ks1 @ ks2) responses) st2)))"

text \<open>A small tree: the root \<open>r\<close>, expanded, with one child \<open>a\<close> that can be expanded.\<close>

definition ex_root :: NodeData where
  "ex_root = \<lparr>id' = Some ''r'', text' = Some ''Idea'', parentId = Some Null, depth = Some (Num 0),
              isExpanded = Some True, isLoading = Some False, childrenIds = Some [''a'']\<rparr>"

definition ex_child :: NodeData where
  "ex_child = \<lparr>id' = Some ''a'', text' = Some ''A'', parentId = Some (Ref ''r''), depth = Some (Num 1),
               isExpanded = Some False, isLoading = Some False, childrenIds = Some []\<rparr>"

definition ex_state :: app_state where
  "ex_state = \<lparr>nodes = [(''r'', ex_root), (''a'', ex_child)], rootId = Some ''r'',
               inputQuery = [], isGenerating = False, focusedNodeId = Some ''r''\<rparr>"

text \<open>Sample behaviours of the service call and of \<open>JSON.parse\<close>, and the wrapper's fallback value.\<close>

definition ex_failing_service :: "string option \<Rightarrow> string option list \<Rightarrow> js_error + string option" where
  "ex_failing_service c p = Inl ServiceError"

definition ex_silent_service :: "string option \<Rightarrow> string option list \<Rightarrow> js_error + string option" where
  "ex_silent_service c p = Inr None"

definition ex_text_service :: "string option \<Rightarrow> string option list \<Rightarrow> js_error + string option" where
  "ex_text_service c p = Inr (Some ''{'')"

definition ex_parse :: "string \<Rightarrow> js_error + json" where
  "ex_parse t = Inl SyntaxError"

definition error_ideas :: json where
  "error_ideas = JArr [JStr ''Error generating'', JStr ''Try again'']"

text \<open>
  Two states of the application: the sample tree on the screen, and the state after the
  user clicked \<open>a\<close>, pressed reset, and the response for \<open>a\<close> arrived.
\<close>

definition ex_ui :: ui_state where
  "ex_ui = \<lparr>cur = ex_state, shown = ex_state, waiting_root = [], waiting_expand = []\<rparr>"

definition ex_stale :: ui_state where
  "ex_stale =
     \<lparr>cur = \<lparr>nodes = [(''a'', \<lparr>id' = None, text' = None, parentId = None, depth = None,
                               isExpanded = Some True, isLoading = Some False,
                               childrenIds = Some [''u1'']\<rparr>),
                      (''u1'', \<lparr>id' = Some ''u1'', text' = Some ''B'', parentId = Some (Ref ''a''),
                                depth = Some (Num 2), isExpanded = Some False,
                                isLoading = Some False, childrenIds = Some []\<rparr>)],
              rootId = None, inputQuery = [], isGenerating = False, focusedNodeId = None\<rparr>,
      shown = ex_state, waiting_root = [], waiting_expand = []\<rparr>"

text \<open>The store after a new brainstorm \<open>Q\<close> has been started (root \<open>r2\<close>, still loading).\<close>

definition ex_restarted :: store where
  "ex_restarted = [(''r2'', newRoot ''r2'' ''Q'')]"

section \<open>Facts about the store updaters\<close>

lemma map_fst_map_entry: "map fst (AList.map_entry k f xs) = map fst xs"
  by (induction xs) auto

lemma fold_update_keys:
  "distinct (map snd ps) \<Longrightarrow> set (map snd ps) \<inter> set (map fst al) = {} \<Longrightarrow>
   map fst (fold (\<lambda>(idea, childId). AList.update childId (f childId idea)) ps al)
     = map fst al @ map snd ps"
proof (induction ps arbitrary: al)
  case Nil
  then show ?case by simp
next
  case (Cons p ps)
  obtain idea c where p: "p = (idea, c)" by (cases p)
  from Cons.prems have c: "c \<notin> set (map fst al)" and d: "distinct (map snd ps)"
    and cn: "c \<notin> set (map snd ps)" and dis: "set (map snd ps) \<inter> set (map fst al) = {}"
    by (auto simp: p)
  have keys: "map fst (AList.update c (f c idea) al) = map fst al @ [c]"
    using c by (simp add: update_keys)
  have "set (map snd ps) \<inter> set (map fst (AList.update c (f c idea) al)) = {}"
    using dis cn unfolding keys by auto
  from Cons.IH[OF d this] show ?case
    by (simp add: p keys)
qed

lemma fold_update_other:
  "k \<notin> set (map snd ps) \<Longrightarrow>
   map_of (fold (\<lambda>(idea, childId). AList.update childId (f childId idea)) ps al) k = map_of al k"
  by (induction ps arbitrary: al) (auto simp: update_conv')

lemma fold_update_new:
  "distinct (map snd ps) \<Longrightarrow> (idea, k) \<in> set ps \<Longrightarrow>
   map_of (fold (\<lambda>(idea, childId). AList.update childId (f childId idea)) ps al) k = Some (f k idea)"
proof (induction ps arbitrary: al)
  case Nil
  then show ?case by simp
next
  case (Cons p ps)
  obtain i c where p: "p = (i, c)" by (cases p)
  show ?case
  proof (cases "(idea, k) \<in> set ps")
    case True
    with Cons show ?thesis by (simp add: p)
  next
    case False
    with Cons.prems have eq: "i = idea" "c = k" and "k \<notin> set (map snd ps)"
      by (auto simp: p)
    then show ?thesis
      by (simp add: p fold_update_other update_conv')
  qed
qed

lemma commit_ideas_keys:
  assumes "nodeId \<in> set (map fst prev)" "length uuids = length ideas" "distinct uuids"
    "set uuids \<inter> set (map fst prev) = {}"
  shows "map fst (commit_ideas nodeId d ideas uuids prev) = map fst prev @ uuids"
proof -
  have z: "map snd (zip ideas uuids) = uuids" using assms(2) by simp
  show ?thesis
    unfolding commit_ideas_def Let_def map_fst_map_entry
    apply (subst fold_update_keys)
    using assms by (simp_all add: z update_keys)
qed

lemma commit_ideas_parent:
  assumes "length uuids = length ideas" "nodeId \<notin> set uuids"
  shows "map_of (commit_ideas nodeId d ideas uuids prev) nodeId =
     Some ((spread (map_of prev nodeId))\<lparr>isExpanded := Some True, isLoading := Some False, childrenIds := Some uuids\<rparr>)"
proof -
  have z: "map snd (zip ideas uuids) = uuids" using assms(1) by simp
  show ?thesis
    unfolding commit_ideas_def Let_def
    using assms(2) by (simp add: map_of_map_entry z fold_update_other update_conv')
qed

lemma commit_ideas_child:
  assumes "length uuids = length ideas" "nodeId \<notin> set uuids" "distinct uuids" "i < length ideas"
  shows "map_of (commit_ideas nodeId d ideas uuids prev) (uuids ! i) =
     Some (new_child (uuids ! i) (ideas ! i) nodeId d)"
proof -
  have z: "map snd (zip ideas uuids) = uuids" using assms(1) by simp
  have mem: "(ideas ! i, uuids ! i) \<in> set (zip ideas uuids)"
    using assms(1,4) by (auto simp: set_zip)
  have ne: "uuids ! i \<noteq> nodeId" using assms by (metis nth_mem)
  show ?thesis
    unfolding commit_ideas_def Let_def
    using ne assms(3) mem by (simp add: map_of_map_entry fold_update_new z)
qed

lemma commit_ideas_other:
  assumes "length uuids = length ideas" "k \<notin> set uuids" "k \<noteq> nodeId"
  shows "map_of (commit_ideas nodeId d ideas uuids prev) k = map_of prev k"
proof -
  have z: "map snd (zip ideas uuids) = uuids" using assms(1) by simp
  show ?thesis
    unfolding commit_ideas_def Let_def
    using assms(2,3) by (simp add: map_of_map_entry fold_update_other z update_conv')
qed


lemmas ex_defs = ex_state_def ex_root_def ex_child_def

lemma js_get_own [simp]: "map_of obj k = Some n \<Longrightarrow> js_get obj k = Some n"
  by (simp add: js_get_def)

lemma js_get_SomeD:
  "js_get obj k = Some n \<Longrightarrow> map_of obj k = Some n \<or> (map_of obj k = None \<and> n = empty_obj)"
  by (auto simp: js_get_def split: option.splits if_splits)

lemma js_get_NoneD: "js_get obj k = None \<Longrightarrow> map_of obj k = None"
  by (auto simp: js_get_def split: option.splits if_splits)

lemma js_get_absent:
  "map_of obj k = None \<Longrightarrow> k \<notin> set object_prototype_keys \<Longrightarrow> js_get obj k = None"
  by (simp add: js_get_def)

lemma path_loop_None: "path_loop c None p = Some p"
  by (subst path_loop.simps) simp

lemma path_loop_stop:
  "parentId n = None \<or> parentId n = Some Null \<or> parentId n = Some (Ref []) \<Longrightarrow>
   path_loop c (Some n) p = Some p"
  by (subst path_loop.simps) auto

lemma path_loop_step:
  "parentId n = Some (Ref q) \<Longrightarrow> q \<noteq> [] \<Longrightarrow>
   path_loop c (Some n) p =
     path_loop c (js_get c q) (case js_get c q of Some pn \<Rightarrow> text' pn # p | None \<Rightarrow> p)"
  by (subst path_loop.simps) simp

lemma path_loop_ex: "path_loop (nodes ex_state) (Some ex_child) [] = Some [Some ''Idea'']"
  by (simp add: ex_defs path_loop_step path_loop_stop)

lemma handleExpandNode_ex:
  "handleExpandNode (nodes ex_state) ''a'' ex_state =
     Some (Awaiting (Request (Some ''A'') [Some ''Idea'']) (''a'', ex_child)
       (ex_state\<lparr>focusedNodeId := Some ''a'',
          nodes := [(''r'', ex_root), (''a'', ex_child\<lparr>isLoading := Some True\<rparr>)]\<rparr>))"
  by (simp add: handleExpandNode_def ex_defs handleExpandNode_loading_def spread_def
      path_loop_step path_loop_stop)

lemma handleExpandNode_accept:
  assumes "map_of captured nodeId = Some n" "isLoading n \<noteq> Some True" "childrenIds n = Some []"
    and "path_loop captured (Some n) [] = Some path"
  shows "handleExpandNode captured nodeId st =
     Some (Awaiting (Request (text' n) path) (nodeId, n)
            (st\<lparr>focusedNodeId := Some nodeId, nodes := handleExpandNode_loading nodeId (nodes st)\<rparr>))"
  using assms by (simp add: handleExpandNode_def)

lemma handleExpandNode_AwaitingD:
  assumes "handleExpandNode captured nodeId st = Some (Awaiting rq k st1)"
  shows "\<exists>n path. map_of captured nodeId = Some n \<and> isLoading n \<noteq> Some True \<and> childrenIds n = Some []
      \<and> path_loop captured (Some n) [] = Some path \<and> rq = Request (text' n) path \<and> k = (nodeId, n)
      \<and> st1 = st\<lparr>focusedNodeId := Some nodeId, nodes := handleExpandNode_loading nodeId (nodes st)\<rparr>"
proof -
  from assms obtain n where g: "js_get captured nodeId = Some n"
    by (auto simp: handleExpandNode_def split: option.splits)
  with assms have c: "childrenIds n = Some []"
    by (auto simp: handleExpandNode_def split: option.splits if_splits)
  with js_get_SomeD[OF g] have m: "map_of captured nodeId = Some n"
    by (auto simp: empty_obj_def)
  from assms g m show ?thesis
    by (auto simp: handleExpandNode_def split: option.splits if_splits)
qed

lemma loading_then_reset:
  assumes "map_of prev nodeId = Some n" "isLoading n = Some False"
  shows "catch_reset nodeId (handleExpandNode_loading nodeId prev) = prev"
proof -
  have "n\<lparr>isLoading := Some False\<rparr> = n" using assms(2) by (cases n) simp
  then show ?thesis
    using assms(1) by (simp add: catch_reset_def handleExpandNode_loading_def update_conv' spread_def update_triv)
qed

lemma loading_keys:
  "map_of prev nodeId = Some n \<Longrightarrow> map fst (handleExpandNode_loading nodeId prev) = map fst prev"
  by (force simp: handleExpandNode_loading_def update_keys dest: map_of_SomeD)

lemma loading_lookup:
  "map_of (handleExpandNode_loading nodeId prev) nodeId = Some ((spread (map_of prev nodeId))\<lparr>isLoading := Some True\<rparr>)"
  by (simp add: handleExpandNode_loading_def update_conv')

lemma begin_expand_Awaiting:
  "handleExpandNode captured nodeId st = Some (Awaiting rq k st1) \<Longrightarrow>
   begin_expand captured nodeId st = Some ([k], st1)"
  by (simp add: begin_expand_def)

lemma begin_expand_Returned:
  "handleExpandNode captured nodeId st = Some (Returned st1) \<Longrightarrow>
   begin_expand captured nodeId st = Some ([], st1)"
  by (simp add: begin_expand_def)

section \<open>Facts about the hierarchy\<close>

lemma each_level_Nil: "each_level data [] = Some []"
  by (subst each_level.simps) simp

lemma each_level_step:
  "level \<noteq> [] \<Longrightarrow>
   each_level data level =
     Option.bind (each_level data (concat (map (children_nodes data) level))) (\<lambda>rest. Some (level @ rest))"
  by (subst each_level.simps) simp

lemma nth_level_empty_later:
  "nth_level data r k = [] \<Longrightarrow> k \<le> j \<Longrightarrow> nth_level data r j = []"
  by (induction j) (auto simp: le_Suc_eq)

lemma each_level_levels:
  assumes "nth_level data r m = []"
  shows "k \<le> m \<Longrightarrow> each_level data (nth_level data r k) = Some (concat (map (nth_level data r) [k..<m]))"
proof (induction "m - k" arbitrary: k)
  case 0
  then have "k = m" by simp
  then show ?case using assms by (simp add: each_level_Nil)
next
  case (Suc d)
  then have lt: "k < m" and d: "d = m - Suc k" by simp_all
  show ?case
  proof (cases "nth_level data r k = []")
    case True
    then have "\<forall>j\<in>set [k..<m]. nth_level data r j = []"
      by (auto intro: nth_level_empty_later)
    then have "concat (map (nth_level data r) [k..<m]) = []" by simp
    with True show ?thesis by (simp add: each_level_Nil)
  next
    case False
    have ih: "each_level data (nth_level data r (Suc k)) = Some (concat (map (nth_level data r) [Suc k..<m]))"
      using Suc.hyps(1)[OF d] lt by simp
    have "[k..<m] = k # [Suc k..<m]" using lt by (simp add: upt_conv_Cons)
    then show ?thesis
      using False ih by (simp add: each_level_step)
  qed
qed

subsection \<open>Valid trees\<close>

lemma vt_distinct: "valid_tree ns r \<Longrightarrow> distinct (map fst ns)"
  by (simp add: valid_tree_def)

lemma vt_node: "valid_tree ns r \<Longrightarrow> (k, n) \<in> set ns \<Longrightarrow> valid_node ns r k n"
  by (auto simp: valid_tree_def list_all_iff)

lemma vt_lookup: "valid_tree ns r \<Longrightarrow> (k, n) \<in> set ns \<longleftrightarrow> map_of ns k = Some n"
  by (simp add: valid_tree_def)

lemma vt_key: "valid_tree ns r \<Longrightarrow> (k, n) \<in> set ns \<Longrightarrow> id' n = Some k \<and> node_key n = Some k \<and> k \<noteq> []"
  by (drule (1) vt_node) (simp add: valid_node_def node_key_def)

lemma vt_inj:
  assumes "valid_tree ns r" "n \<in> set (map snd ns)" "m \<in> set (map snd ns)" "id' n = id' m"
  shows "n = m"
proof -
  from assms(2,3) obtain k j where kn: "(k, n) \<in> set ns" and jm: "(j, m) \<in> set ns" by auto
  have "id' n = Some k" "id' m = Some j"
    using vt_key[OF assms(1) kn] vt_key[OF assms(1) jm] by simp_all
  with assms(4) have "k = j" by simp
  with kn jm assms(1) show ?thesis by (simp add: vt_lookup)
qed

lemma vt_data_distinct:
  assumes "valid_tree ns r" shows "distinct (map snd ns)"
proof -
  have "inj_on snd (set ns)"
  proof (rule inj_onI)
    fix a b assume a: "a \<in> set ns" and b: "b \<in> set ns" and e: "snd a = snd b"
    obtain k n where [simp]: "a = (k, n)" by (cases a)
    obtain j m where [simp]: "b = (j, m)" by (cases b)
    have "id' n = Some k" "id' m = Some j"
      using vt_key[OF assms, of k n] vt_key[OF assms, of j m] a b by simp_all
    with e have "k = j" by simp
    with e show "a = b" by simp
  qed
  moreover have "distinct ns" using vt_distinct[OF assms] by (simp add: distinct_map)
  ultimately show ?thesis by (simp add: distinct_map)
qed

lemma vt_root:
  assumes "valid_tree ns r"
  shows "\<exists>rt. (r, rt) \<in> set ns \<and> parentId rt = Some Null \<and> parent_key rt = None \<and> depth rt = Some (Num 0)"
proof -
  from assms obtain rt where "map_of ns r = Some rt" by (auto simp: valid_tree_def)
  then have m: "(r, rt) \<in> set ns" by (rule map_of_SomeD)
  from vt_node[OF assms m] show ?thesis using m by (auto simp: valid_node_def parent_key_def)
qed

lemma vt_nonroot:
  assumes "valid_tree ns r" "(k, n) \<in> set ns" "k \<noteq> r"
  shows "\<exists>p pn d cs. parentId n = Some (Ref p) \<and> parent_key n = Some p \<and> (p, pn) \<in> set ns
           \<and> depth pn = Some (Num d) \<and> depth n = Some (Num (Suc d))
           \<and> childrenIds pn = Some cs \<and> k \<in> set cs"
proof -
  from vt_node[OF assms(1,2)] assms(3)
  obtain p pn cs where p: "parentId n = Some (Ref p)" and l: "map_of ns p = Some pn"
    and d: "depth n = Some (js_add1 (depth pn))" "depth n \<noteq> Some NaN"
    and cs: "childrenIds pn = Some cs" "k \<in> set cs"
    by (auto simp: valid_node_def split: option.splits parent_ref.splits)
  from l have m: "(p, pn) \<in> set ns" by (rule map_of_SomeD)
  then have "p \<noteq> []" using assms(1) by (auto dest: vt_key)
  then have pk: "parent_key n = Some p" using p by (simp add: parent_key_def)
  from d obtain dd where "depth pn = Some (Num dd)" "depth n = Some (Num (Suc dd))"
    by (auto simp: js_add1_def split: option.splits jsnum.splits)
  with p pk m cs show ?thesis by blast
qed

lemma vt_depth:
  assumes "valid_tree ns r" "(k, n) \<in> set ns"
  shows "\<exists>d. depth n = Some (Num d)"
proof (cases "k = r")
  case True
  with vt_root[OF assms(1)] assms show ?thesis by (auto simp: vt_lookup)
next
  case False
  from vt_nonroot[OF assms False] show ?thesis by blast
qed

lemma vt_depth0:
  assumes "valid_tree ns r" "(k, n) \<in> set ns" "depth n = Some (Num 0)"
  shows "k = r"
proof (rule ccontr)
  assume "k \<noteq> r"
  from vt_nonroot[OF assms(1,2) this] assms(3) show False by auto
qed

lemma vt_children:
  assumes "valid_tree ns r" "(k, n) \<in> set ns" "childrenIds n = Some cs" "c \<in> set cs"
  shows "\<exists>cn. (c, cn) \<in> set ns \<and> parentId cn = Some (Ref k)"
proof -
  from vt_node[OF assms(1,2)] assms(3,4)
  obtain cn where "map_of ns c = Some cn" "parentId cn = Some (Ref k)"
    by (auto simp: valid_node_def list_all_iff split: option.splits)
  then show ?thesis by (auto dest: map_of_SomeD)
qed

lemma reach_keys:
  assumes "valid_tree ns r"
  shows "reach ns r = set (map fst ns)"
proof
  show "reach ns r \<subseteq> set (map fst ns)"
  proof
    fix k assume "k \<in> reach ns r"
    then show "k \<in> set (map fst ns)"
      by (induction rule: reach.induct) (force dest: map_of_SomeD)+
  qed
next
  have "\<And>k n. (k, n) \<in> set ns \<Longrightarrow> depth n = Some (Num d) \<Longrightarrow> k \<in> reach ns r" for d
  proof (induction d)
    case 0
    then have "k = r" using assms by (auto dest: vt_depth0)
    moreover have "map_of ns r \<noteq> None"
      using vt_root[OF assms] assms by (auto simp: vt_lookup)
    ultimately show ?case using reach.root[of ns r] by blast
  next
    case (Suc d)
    have "k \<noteq> r"
    proof
      assume "k = r"
      with vt_root[OF assms] Suc.prems(1) assms have "depth n = Some (Num 0)"
        by (auto simp: vt_lookup)
      with Suc.prems(2) show False by simp
    qed
    from vt_nonroot[OF assms Suc.prems(1) this] Suc.prems(2)
    obtain p pn cs where p: "(p, pn) \<in> set ns" "depth pn = Some (Num d)"
      "childrenIds pn = Some cs" "k \<in> set cs" by auto
    have "p \<in> reach ns r" using Suc.IH[OF p(1,2)] .
    moreover have "map_of ns p = Some pn" using p(1) assms by (simp add: vt_lookup)
    moreover have "map_of ns k \<noteq> None" using Suc.prems(1) assms by (simp add: vt_lookup)
    ultimately show ?case using p(3,4) by (auto intro: reach.child)
  qed
  then show "set (map fst ns) \<subseteq> reach ns r"
    using vt_depth[OF assms] by fastforce
qed


subsection \<open>The levels of a valid tree\<close>

lemma hdata_children_nodes: "map hdata (children_nodes data h) = children_of data (hdata h)"
proof -
  have "hdata \<circ> (\<lambda>(i, c). HNode c d (p @ [i]) par) = snd" for d p par
    by (auto simp: fun_eq_iff)
  then show ?thesis by (simp add: children_nodes_def map_snd_enumerate)
qed

lemma children_nodes_props:
  assumes "c \<in> set (children_nodes data h)"
  shows "hparent c = Some h \<and> hdepth c = Suc (hdepth h) \<and> hdata c \<in> set (children_of data (hdata h))"
  using assms by (auto simp: children_nodes_def in_set_enumerate_eq)

lemma distinct_concat_map:
  assumes "distinct xs" and "\<And>x. x \<in> set xs \<Longrightarrow> distinct (f x)"
    and "\<And>x y. x \<in> set xs \<Longrightarrow> y \<in> set xs \<Longrightarrow> x \<noteq> y \<Longrightarrow> set (f x) \<inter> set (f y) = {}"
  shows "distinct (concat (map f xs))"
  using assms
proof (induction xs)
  case Nil
  then show ?case by simp
next
  case (Cons x xs)
  have "distinct (concat (map f xs))"
    by (rule Cons.IH) (use Cons.prems in auto)
  moreover have "distinct (f x)" using Cons.prems(2) by simp
  moreover have "set (f x) \<inter> set (f y) = {}" if "y \<in> set xs" for y
    using Cons.prems(1) Cons.prems(3)[of x y] that by auto
  ultimately show ?case by auto
qed

lemma vt_child_depth:
  assumes V: "valid_tree ns r" and n: "(k, n) \<in> set ns" and e: "e \<in> set (map snd ns)"
    and pk: "parent_key e = Some k" and d: "depth n = Some (Num d)"
  shows "depth e = Some (Num (Suc d))"
proof -
  from e obtain ke where ke: "(ke, e) \<in> set ns" by auto
  have "ke \<noteq> r"
  proof
    assume "ke = r"
    with vt_root[OF V] ke V have "parent_key e = None" by (auto simp: vt_lookup)
    with pk show False by simp
  qed
  from vt_nonroot[OF V ke this] pk
  obtain pn d' where "(k, pn) \<in> set ns" "depth pn = Some (Num d')" "depth e = Some (Num (Suc d'))"
    by auto
  moreover from this(1) n V have "pn = n" by (simp add: vt_lookup)
  ultimately show ?thesis using d by simp
qed

lemma vt_children_of:
  assumes V: "valid_tree ns r" and n: "(k, n) \<in> set ns"
  shows "children_of (map snd ns) n = filter (\<lambda>e. parent_key e = Some k) (map snd ns)"
  using vt_key[OF V n] by (simp add: children_of_def)

lemma vt_level:
  assumes V: "valid_tree ns r" and rt: "(r, rt) \<in> set ns"
  shows "distinct (map hdata (nth_level (map snd ns) (HNode rt 0 [] None) k))
       \<and> set (map hdata (nth_level (map snd ns) (HNode rt 0 [] None) k))
           = {n \<in> set (map snd ns). depth n = Some (Num k)}
       \<and> (\<forall>h \<in> set (nth_level (map snd ns) (HNode rt 0 [] None) k). hdepth h = k)"
proof (induction k)
  case 0
  have "{n \<in> set (map snd ns). depth n = Some (Num 0)} = {rt}"
  proof (intro equalityI subsetI)
    fix n assume "n \<in> {n \<in> set (map snd ns). depth n = Some (Num 0)}"
    then obtain k where k: "(k, n) \<in> set ns" and "depth n = Some (Num 0)" by auto
    then have "k = r" using vt_depth0[OF V] by blast
    with k rt V show "n \<in> {rt}" by (simp add: vt_lookup)
  next
    fix n assume "n \<in> {rt}"
    moreover have "depth rt = Some (Num 0)" using vt_root[OF V] rt V by (auto simp: vt_lookup)
    ultimately show "n \<in> {n \<in> set (map snd ns). depth n = Some (Num 0)}"
      using rt by force
  qed
  then show ?case by simp
next
  case (Suc k)
  let ?data = "map snd ns"
  let ?lv = "nth_level ?data (HNode rt 0 [] None) k"
  from Suc have dl: "distinct (map hdata ?lv)"
    and sl: "set (map hdata ?lv) = {n \<in> set ?data. depth n = Some (Num k)}"
    and hl: "\<forall>h \<in> set ?lv. hdepth h = k" by simp_all
  have md: "map hdata (nth_level ?data (HNode rt 0 [] None) (Suc k))
      = concat (map (children_of ?data) (map hdata ?lv))"
    by (simp add: map_concat comp_def hdata_children_nodes)
  have dd: "distinct ?data" by (rule vt_data_distinct[OF V])
  have c1: "distinct (concat (map (children_of ?data) (map hdata ?lv)))"
  proof (rule distinct_concat_map[OF dl])
    fix x assume "x \<in> set (map hdata ?lv)"
    show "distinct (children_of ?data x)"
      using dd by (simp add: children_of_def split: option.splits)
  next
    fix x y assume x: "x \<in> set (map hdata ?lv)" and y: "y \<in> set (map hdata ?lv)" and ne: "x \<noteq> y"
    from x y sl obtain kx ky where kx: "(kx, x) \<in> set ns" and ky: "(ky, y) \<in> set ns" by auto
    have "kx \<noteq> ky" using kx ky ne V by (auto simp: vt_lookup)
    then show "set (children_of ?data x) \<inter> set (children_of ?data y) = {}"
      by (auto simp: vt_children_of[OF V kx] vt_children_of[OF V ky])
  qed
  have c2: "set (concat (map (children_of ?data) (map hdata ?lv)))
      = {n \<in> set ?data. depth n = Some (Num (Suc k))}"
  proof (intro equalityI subsetI)
    fix e assume "e \<in> set (concat (map (children_of ?data) (map hdata ?lv)))"
    then obtain x where x: "x \<in> set (map hdata ?lv)" and e: "e \<in> set (children_of ?data x)" by auto
    from x sl obtain kx where kx: "(kx, x) \<in> set ns" and dx: "depth x = Some (Num k)" by auto
    from e have ed: "e \<in> set ?data" and pk: "parent_key e = Some kx"
      by (simp_all add: vt_children_of[OF V kx])
    from vt_child_depth[OF V kx ed pk dx] ed
    show "e \<in> {n \<in> set ?data. depth n = Some (Num (Suc k))}" by simp
  next
    fix e assume "e \<in> {n \<in> set ?data. depth n = Some (Num (Suc k))}"
    then obtain ke where ke: "(ke, e) \<in> set ns" and de: "depth e = Some (Num (Suc k))" by auto
    have "ke \<noteq> r"
    proof
      assume "ke = r"
      with vt_root[OF V] ke V have "depth e = Some (Num 0)" by (auto simp: vt_lookup)
      with de show False by simp
    qed
    from vt_nonroot[OF V ke this] de
    obtain p pn where p: "parent_key e = Some p" "(p, pn) \<in> set ns" "depth pn = Some (Num k)"
      by auto
    then have "pn \<in> set (map hdata ?lv)" unfolding sl by force
    moreover have "e \<in> set (children_of ?data pn)"
      using ke p(1) by (force simp: vt_children_of[OF V p(2)])
    ultimately show "e \<in> set (concat (map (children_of ?data) (map hdata ?lv)))" by auto
  qed
  have c3: "\<forall>h \<in> set (nth_level ?data (HNode rt 0 [] None) (Suc k)). hdepth h = Suc k"
    using hl by (auto dest!: children_nodes_props)
  from c1 c2 c3 show ?case unfolding md by blast
qed

subsection \<open>The hierarchy of a valid tree\<close>

lemma filter_unique:
  assumes "distinct xs" "x \<in> set xs" "\<And>y. y \<in> set xs \<Longrightarrow> P y \<longleftrightarrow> y = x"
  shows "filter P xs = [x]"
  using assms
proof (induction xs)
  case Nil
  then show ?case by simp
next
  case (Cons a xs)
  show ?case
  proof (cases "a = x")
    case True
    with Cons.prems have "\<forall>y\<in>set xs. \<not> P y" by auto
    then have "filter P xs = []" by (simp add: filter_empty_conv)
    with True Cons.prems show ?thesis by simp
  next
    case False
    with Cons.prems have "\<not> P a" and "x \<in> set xs" and "distinct xs" by auto
    moreover have "filter P xs = [x]"
      by (rule Cons.IH) (use Cons.prems \<open>x \<in> set xs\<close> in auto)
    ultimately show ?thesis by simp
  qed
qed

lemma link_nodes_Inr:
  "link_nodes data ds root' = Inr res \<Longrightarrow>
   (case root' of
      None \<Rightarrow> (case filter (\<lambda>d. parent_key d = None) ds of
                  [] \<Rightarrow> res = None | [x] \<Rightarrow> res = Some x | _ \<Rightarrow> False)
    | Some y \<Rightarrow> filter (\<lambda>d. parent_key d = None) ds = [] \<and> res = Some y)"
proof (induction ds arbitrary: root')
  case Nil
  then show ?case by (simp split: option.splits)
next
  case (Cons d ds)
  show ?case
  proof (cases "parent_key d")
    case None
    with Cons.prems obtain "root' = None" and "link_nodes data ds (Some d) = Inr res"
      by (auto split: option.splits)
    with Cons.IH[of "Some d"] None show ?thesis by simp
  next
    case (Some k)
    with Cons.prems have "link_nodes data ds root' = Inr res"
      by (auto split: list.splits)
    with Cons.IH[of root'] Some show ?thesis by (simp split: option.splits)
  qed
qed

lemma link_nodes_ok:
  assumes "\<And>d k. d \<in> set ds \<Longrightarrow> parent_key d = Some k \<Longrightarrow> \<exists>p. filter (\<lambda>e. node_key e = Some k) data = [p]"
    and "filter (\<lambda>d. parent_key d = None) ds = (if root' = None then [x] else [])"
  shows "link_nodes data ds root' = Inr (Some (case root' of None \<Rightarrow> x | Some y \<Rightarrow> y))"
  using assms
proof (induction ds arbitrary: root')
  case Nil
  then show ?case by (auto split: if_splits)
next
  case (Cons d ds)
  show ?case
  proof (cases "parent_key d")
    case None
    with Cons.prems(2) have r: "root' = None" "d = x" "filter (\<lambda>d. parent_key d = None) ds = []"
      by (auto split: if_splits)
    have "link_nodes data ds (Some d) = Inr (Some (case Some d of None \<Rightarrow> x | Some y \<Rightarrow> y))"
      by (rule Cons.IH) (use Cons.prems(1) r in auto)
    with None r show ?thesis by simp
  next
    case (Some k)
    from Cons.prems(1)[of d k] Some obtain p where p: "filter (\<lambda>e. node_key e = Some k) data = [p]"
      by auto
    have "link_nodes data ds root' = Inr (Some (case root' of None \<Rightarrow> x | Some y \<Rightarrow> y))"
      by (rule Cons.IH) (use Cons.prems Some in auto)
    with Some p show ?thesis by simp
  qed
qed

lemma vt_link_nodes:
  assumes V: "valid_tree ns r" and rt: "(r, rt) \<in> set ns"
  shows "link_nodes (map snd ns) (map snd ns) None = Inr (Some rt)"
proof -
  let ?data = "map snd ns"
  have dd: "distinct ?data" by (rule vt_data_distinct[OF V])
  have roots: "filter (\<lambda>d. parent_key d = None) ?data = [rt]"
  proof (rule filter_unique[OF dd])
    show "rt \<in> set ?data" using rt by force
  next
    fix y assume "y \<in> set ?data"
    then obtain k where k: "(k, y) \<in> set ns" by auto
    show "parent_key y = None \<longleftrightarrow> y = rt"
    proof (cases "k = r")
      case True
      with k rt V have "y = rt" by (simp add: vt_lookup)
      moreover have "parent_key rt = None" using vt_root[OF V] rt V by (auto simp: vt_lookup)
      ultimately show ?thesis by simp
    next
      case False
      from vt_nonroot[OF V k False] have "parent_key y \<noteq> None" by auto
      moreover have "y \<noteq> rt" using k rt False V vt_key[OF V k] vt_key[OF V rt] by auto
      ultimately show ?thesis by simp
    qed
  qed
  have parents: "\<exists>p. filter (\<lambda>e. node_key e = Some k) ?data = [p]"
    if "d \<in> set ?data" "parent_key d = Some k" for d k
  proof -
    from that(1) obtain kd where kd: "(kd, d) \<in> set ns" by auto
    have "kd \<noteq> r"
    proof
      assume "kd = r"
      with kd rt V have "d = rt" by (simp add: vt_lookup)
      moreover have "parent_key rt = None" using vt_root[OF V] rt V by (auto simp: vt_lookup)
      ultimately show False using that(2) by simp
    qed
    from vt_nonroot[OF V kd this] that(2) obtain pn where pn: "(k, pn) \<in> set ns" by auto
    have "filter (\<lambda>e. node_key e = Some k) ?data = [pn]"
    proof (rule filter_unique[OF dd])
      show "pn \<in> set ?data" using pn by force
    next
      fix y assume "y \<in> set ?data"
      then obtain ky where ky: "(ky, y) \<in> set ns" by auto
      have "node_key y = Some ky" "node_key pn = Some k"
        using vt_key[OF V ky] vt_key[OF V pn] by simp_all
      moreover have "map_of ns ky = Some y" "map_of ns k = Some pn"
        using ky pn V by (simp_all add: vt_lookup)
      ultimately show "node_key y = Some k \<longleftrightarrow> y = pn" by auto
    qed
    then show ?thesis by blast
  qed
  from link_nodes_ok[of ?data ?data None rt, OF parents] roots show ?thesis by simp
qed

lemma depth_bound: "\<exists>m. \<forall>n\<in>set (xs :: NodeData list). \<forall>d. depth n = Some (Num d) \<longrightarrow> d < m"
proof (induction xs)
  case Nil
  then show ?case by simp
next
  case (Cons x xs)
  then obtain m where m: "\<forall>n\<in>set xs. \<forall>d. depth n = Some (Num d) \<longrightarrow> d < m" by blast
  show ?case
  proof (cases "depth x")
    case None
    with m show ?thesis by (intro exI[of _ m]) auto
  next
    case (Some v)
    show ?thesis
    proof (cases v)
      case (Num dx)
      with Some m show ?thesis by (intro exI[of _ "max m (Suc dx)"]) (auto simp: less_max_iff_disj)
    next
      case NaN
      with Some m show ?thesis by (intro exI[of _ m]) auto
    qed
  qed
qed


lemma vt_level_parent:
  assumes V: "valid_tree ns r" and rt: "(r, rt) \<in> set ns"
    and h: "h \<in> set (nth_level (map snd ns) (HNode rt 0 [] None) k)"
  shows "(case hparent h of
            None \<Rightarrow> k = 0 \<and> h = HNode rt 0 [] None
          | Some p \<Rightarrow> (\<exists>j. k = Suc j \<and> p \<in> set (nth_level (map snd ns) (HNode rt 0 [] None) j))
                      \<and> parent_key (hdata h) = node_key (hdata p) \<and> node_key (hdata p) \<noteq> None)"
proof (cases k)
  case 0
  with h show ?thesis by simp
next
  case (Suc j)
  let ?data = "map snd ns"
  from h Suc obtain p where p: "p \<in> set (nth_level ?data (HNode rt 0 [] None) j)"
    and c: "h \<in> set (children_nodes ?data p)" by auto
  from children_nodes_props[OF c] have hp: "hparent h = Some p"
    and ch: "hdata h \<in> set (children_of ?data (hdata p))" by simp_all
  from vt_level[OF V rt, of j] p have "hdata p \<in> set ?data" by auto
  then obtain kp where kp: "(kp, hdata p) \<in> set ns" by auto
  from ch have "parent_key (hdata h) = Some kp" by (simp add: vt_children_of[OF V kp])
  moreover have "node_key (hdata p) = Some kp" using vt_key[OF V kp] by simp
  ultimately show ?thesis using hp p Suc by simp
qed

lemma vt_stratify:
  assumes V: "valid_tree ns r" and rt: "(r, rt) \<in> set ns"
  shows "\<exists>hs. stratify (map snd ns) = Some (Inr hs)
      \<and> distinct (map hdata hs) \<and> set (map hdata hs) = set (map snd ns)
      \<and> (\<forall>h\<in>set hs. depth (hdata h) = Some (Num (hdepth h)))
      \<and> (\<forall>h\<in>set hs. case hparent h of
             None \<Rightarrow> h = HNode rt 0 [] None
           | Some p \<Rightarrow> p \<in> set hs \<and> parent_key (hdata h) = node_key (hdata p)
                        \<and> node_key (hdata p) \<noteq> None)
      \<and> hs \<noteq> [] \<and> hd hs = HNode rt 0 [] None"
proof -
  let ?data = "map snd ns"
  let ?root = "HNode rt 0 [] None"
  let ?lv = "nth_level ?data ?root"
  obtain m where m: "\<forall>n\<in>set ?data. \<forall>d. depth n = Some (Num d) \<longrightarrow> d < m"
    using depth_bound[of ?data] by blast
  have lvl: "distinct (map hdata (?lv k))"
    "set (map hdata (?lv k)) = {n \<in> set ?data. depth n = Some (Num k)}"
    "\<forall>h \<in> set (?lv k). hdepth h = k" for k
    using vt_level[OF V rt, of k] by simp_all
  have "set (map hdata (?lv m)) = {}" unfolding lvl(2) using m by auto
  then have empty: "?lv m = []" by simp
  have "depth rt = Some (Num 0)" using vt_root[OF V] rt V by (auto simp: vt_lookup)
  moreover have "rt \<in> set ?data" using rt by force
  ultimately have m0: "0 < m" using m by blast
  define hs where "hs = concat (map ?lv [0..<m])"
  have each: "each_level ?data [?root] = Some hs"
    using each_level_levels[OF empty, of 0] by (simp add: hs_def)
  have mh: "map hdata hs = concat (map (\<lambda>k. map hdata (?lv k)) [0..<m])"
    by (simp add: hs_def map_concat comp_def)
  have dist: "distinct (map hdata hs)"
    unfolding mh
  proof (rule distinct_concat_map)
    show "distinct [0..<m]" by simp
  next
    fix k show "distinct (map hdata (?lv k))" by (rule lvl(1))
  next
    fix j k :: nat assume "j \<noteq> k"
    then show "set (map hdata (?lv j)) \<inter> set (map hdata (?lv k)) = {}"
      unfolding lvl(2) by auto
  qed
  have sets: "set (map hdata hs) = set ?data"
  proof (intro equalityI subsetI)
    fix n assume "n \<in> set (map hdata hs)"
    then obtain k where "n \<in> set (map hdata (?lv k))" unfolding mh by auto
    then show "n \<in> set ?data" unfolding lvl(2) by simp
  next
    fix n assume n: "n \<in> set ?data"
    then obtain k where "(k, n) \<in> set ns" by auto
    from vt_depth[OF V this] obtain d where d: "depth n = Some (Num d)" by blast
    with m n have "d < m" by blast
    moreover have "n \<in> set (map hdata (?lv d))" unfolding lvl(2) using n d by simp
    ultimately show "n \<in> set (map hdata hs)" unfolding mh by auto
  qed
  have inlv: "\<exists>k<m. h \<in> set (?lv k)" if "h \<in> set hs" for h
    using that by (auto simp: hs_def)
  have depths: "\<forall>h\<in>set hs. depth (hdata h) = Some (Num (hdepth h))"
  proof
    fix h assume "h \<in> set hs"
    then obtain k where k: "h \<in> set (?lv k)" using inlv by blast
    then have "hdata h \<in> set (map hdata (?lv k))" by simp
    then have "depth (hdata h) = Some (Num k)" unfolding lvl(2) by simp
    moreover have "hdepth h = k" using lvl(3) k by blast
    ultimately show "depth (hdata h) = Some (Num (hdepth h))" by simp
  qed
  have parents: "\<forall>h\<in>set hs. case hparent h of
             None \<Rightarrow> h = ?root
           | Some p \<Rightarrow> p \<in> set hs \<and> parent_key (hdata h) = node_key (hdata p)
                        \<and> node_key (hdata p) \<noteq> None"
  proof
    fix h assume "h \<in> set hs"
    then obtain k where k: "k < m" "h \<in> set (?lv k)" using inlv by blast
    from vt_level_parent[OF V rt k(2)] k(1)
    show "case hparent h of
             None \<Rightarrow> h = ?root
           | Some p \<Rightarrow> p \<in> set hs \<and> parent_key (hdata h) = node_key (hdata p)
                        \<and> node_key (hdata p) \<noteq> None"
      by (cases "hparent h") (auto simp: hs_def)
  qed
  have "[0..<m] = 0 # [1..<m]" using m0 by (simp add: upt_conv_Cons)
  then have hd: "hs \<noteq> [] \<and> hd hs = ?root" by (simp add: hs_def)
  have "length (map hdata hs) = length ?data"
    using dist sets vt_data_distinct[OF V] by (metis distinct_card)
  then have len: "length hs = length ns" by simp
  have "stratify ?data = Some (Inr hs)"
    by (simp add: stratify_def vt_link_nodes[OF V rt] each len)
  with dist sets depths parents hd show ?thesis by blast
qed


subsection \<open>The layout of a valid tree\<close>

lemma lid_toLayoutNode [simp]: "lid (toLayoutNode ang h) = id' (hdata h)"
  and ldata_toLayoutNode [simp]: "ldata (toLayoutNode ang h) = hdata h"
  by (simp_all add: toLayoutNode_def)

lemma find_unique:
  "distinct (map g xs) \<Longrightarrow> x \<in> set xs \<Longrightarrow> find (\<lambda>y. g y = g x) xs = Some x"
  by (induction xs) auto

lemma find_toLayoutNode:
  assumes "distinct (map (\<lambda>h. id' (hdata h)) hs)" "p \<in> set hs"
  shows "find (\<lambda>n. lid n = id' (hdata p)) (map (toLayoutNode ang) hs) = Some (toLayoutNode ang p)"
proof -
  have "find (\<lambda>n. lid n = id' (hdata p)) (map (toLayoutNode ang) hs)
      = map_option (toLayoutNode ang) (find (\<lambda>h. id' (hdata h) = id' (hdata p)) hs)"
    by (induction hs) auto
  with find_unique[of "\<lambda>h. id' (hdata h)" hs p, OF assms] show ?thesis by simp
qed

lemma hlinks_set: "(p, h) \<in> set (hlinks hs) \<longleftrightarrow> h \<in> set hs \<and> hparent h = Some p"
  by (auto simp: hlinks_def split: option.splits)

lemma map_snd_hlinks: "map snd (hlinks hs) = filter (\<lambda>h. hparent h \<noteq> None) hs"
  by (induction hs) (auto simp: hlinks_def split: option.splits)

lemma toLinks_eq:
  assumes "distinct (map (\<lambda>h. id' (hdata h)) hs)"
    and "\<And>p h. (p, h) \<in> set ls \<Longrightarrow> p \<in> set hs \<and> h \<in> set hs"
  shows "toLinks (map (toLayoutNode ang) hs) ls
       = map (\<lambda>(p, h). (toLayoutNode ang p, toLayoutNode ang h)) ls"
  using assms(2)
proof (induction ls)
  case Nil
  then show ?case by (simp add: toLinks_def)
next
  case (Cons l ls)
  obtain p h where l: "l = (p, h)" by (cases l)
  from Cons.prems[of p h] l have ph: "p \<in> set hs" "h \<in> set hs" by simp_all
  have "toLinks (map (toLayoutNode ang) hs) ls
       = map (\<lambda>(p, h). (toLayoutNode ang p, toLayoutNode ang h)) ls"
    by (rule Cons.IH) (use Cons.prems in auto)
  then show ?case
    using find_toLayoutNode[OF assms(1) ph(1)] find_toLayoutNode[OF assms(1) ph(2)]
    by (simp add: toLinks_def l)
qed

lemma vt_layout:
  assumes V: "valid_tree ns r" and rt: "(r, rt) \<in> set ns"
  shows "\<exists>hs. calculateTreeLayout ang ns r
        = Some \<lparr>lnodes = map (toLayoutNode ang) hs,
                links = map (\<lambda>(p, h). (toLayoutNode ang p, toLayoutNode ang h)) (hlinks hs)\<rparr>
      \<and> distinct (map hdata hs) \<and> set (map hdata hs) = set (map snd ns)
      \<and> (\<forall>h\<in>set hs. depth (hdata h) = Some (Num (hdepth h)))
      \<and> (\<forall>h\<in>set hs. case hparent h of
             None \<Rightarrow> h = HNode rt 0 [] None
           | Some p \<Rightarrow> p \<in> set hs \<and> parent_key (hdata h) = node_key (hdata p)
                        \<and> node_key (hdata p) \<noteq> None)
      \<and> hs \<noteq> [] \<and> hd hs = HNode rt 0 [] None
      \<and> distinct (map (\<lambda>h. id' (hdata h)) hs)"
proof -
  from vt_stratify[OF V rt] obtain hs where st: "stratify (map snd ns) = Some (Inr hs)"
    and d: "distinct (map hdata hs)" and s: "set (map hdata hs) = set (map snd ns)"
    and dp: "\<forall>h\<in>set hs. depth (hdata h) = Some (Num (hdepth h))"
    and pr: "\<forall>h\<in>set hs. case hparent h of
             None \<Rightarrow> h = HNode rt 0 [] None
           | Some p \<Rightarrow> p \<in> set hs \<and> parent_key (hdata h) = node_key (hdata p)
                        \<and> node_key (hdata p) \<noteq> None"
    and hd: "hs \<noteq> [] \<and> hd hs = HNode rt 0 [] None" by blast
  have "inj_on id' (set (map hdata hs))"
    unfolding s by (rule inj_onI) (rule vt_inj[OF V])
  with d have "distinct (map id' (map hdata hs))" by (simp only: distinct_map)
  then have di: "distinct (map (\<lambda>h. id' (hdata h)) hs)" by (simp add: comp_def)
  have ls: "p \<in> set hs \<and> h \<in> set hs" if "(p, h) \<in> set (hlinks hs)" for p h
    using that pr by (force simp: hlinks_set)
  have r: "r \<noteq> []" "map_of ns r = Some rt" using vt_key[OF V rt] rt V by (simp_all add: vt_lookup)
  have "calculateTreeLayout ang ns r
        = Some \<lparr>lnodes = map (toLayoutNode ang) hs,
                links = map (\<lambda>(p, h). (toLayoutNode ang p, toLayoutNode ang h)) (hlinks hs)\<rparr>"
    using r by (simp add: calculateTreeLayout_def st toLinks_eq[OF di ls])
  with d s dp pr hd di show ?thesis by blast
qed


lemma each_level_mem:
  assumes "each_level data level = Some hs"
  shows "\<forall>h\<in>set hs. h \<in> set level \<or>
           ((\<exists>p. hparent h = Some p \<and> hdepth h = Suc (hdepth p)) \<and> hdata h \<in> set data)"
  using assms
proof (induction data level hs rule: each_level.raw_induct[rotated 1, consumes 1, case_names step])
  case (step each_level' data level hs)
  show ?case
  proof (cases "level = []")
    case True
    with step(2) show ?thesis by simp
  next
    case False
    with step(2) obtain rest where rest: "each_level' data (concat (map (children_nodes data) level)) = Some rest"
      and hs: "hs = level @ rest" by (auto simp: bind_eq_Some_conv)
    from step(1)[OF rest] have ih: "\<forall>h\<in>set rest. h \<in> set (concat (map (children_nodes data) level)) \<or>
           ((\<exists>p. hparent h = Some p \<and> hdepth h = Suc (hdepth p)) \<and> hdata h \<in> set data)" .
    have ch: "(\<exists>p. hparent h = Some p \<and> hdepth h = Suc (hdepth p)) \<and> hdata h \<in> set data"
      if "h \<in> set (concat (map (children_nodes data) level))" for h
    proof -
      from that obtain p where "h \<in> set (children_nodes data p)" by auto
      from children_nodes_props[OF this] show ?thesis
        by (auto simp: children_of_def split: option.splits)
    qed
    show ?thesis unfolding hs using ih ch by auto
  qed
qed

lemma ex_valid_tree: "valid_tree (nodes ex_state) ''r''"
  by (simp add: valid_tree_def valid_node_def ex_defs js_add1_def)

lemma each_level_hd:
  assumes "each_level data (r # level) = Some hs"
  shows "hs \<noteq> [] \<and> hd hs = r"
  using assms by (subst (asm) each_level.simps) (auto simp: bind_eq_Some_conv)

lemma stratify_InrD:
  assumes "stratify data = Some (Inr hs)"
  shows "\<exists>rt. filter (\<lambda>d. parent_key d = None) data = [rt]
           \<and> each_level data [HNode rt 0 [] None] = Some hs
           \<and> hs \<noteq> [] \<and> hd hs = HNode rt 0 [] None
           \<and> (\<forall>h\<in>set hs. h = HNode rt 0 [] None \<or>
                 ((\<exists>p. hparent h = Some p \<and> hdepth h = Suc (hdepth p)) \<and> hdata h \<in> set data))"
proof -
  from assms obtain rt where l: "link_nodes data data None = Inr (Some rt)"
    and e: "each_level data [HNode rt 0 [] None] = Some hs"
    by (auto simp: stratify_def split: sum.splits option.splits if_splits)
  from link_nodes_Inr[OF l] have f: "filter (\<lambda>d. parent_key d = None) data = [rt]"
    by (auto split: list.splits)
  from each_level_mem[OF e] each_level_hd[OF e] f e show ?thesis by auto
qed

lemma polar_root [simp]: "polar_x ang (HNode d 0 p q) = 0" "polar_y ang (HNode d 0 p q) = 0"
  by (simp_all add: polar_x_def polar_y_def)


subsection \<open>The traversal ends\<close>

text \<open>
  When the linking succeeds, every node the traversal visits lies at the end of a chain
  of distinct records of the data, so the traversal is over after at most as many levels
  as there are records: \<open>stratify\<close> and \<open>calculateTreeLayout\<close> return on every input.
\<close>

lemma hchain_hd: "\<exists>rest. hchain h = hdata h # rest"
proof (cases h)
  case (HNode d n p q)
  then show ?thesis by (cases q) simp_all
qed

lemma link_nodes_parents:
  "link_nodes data ds root' = Inr res \<Longrightarrow> d \<in> set ds \<Longrightarrow> parent_key d = Some k \<Longrightarrow>
   \<exists>p. filter (\<lambda>e. node_key e = Some k) data = [p]"
proof (induction ds arbitrary: root')
  case Nil
  then show ?case by simp
next
  case (Cons a ds)
  show ?case
  proof (cases "parent_key a")
    case None
    with Cons.prems have "link_nodes data ds (Some a) = Inr res" "d \<in> set ds"
      by (auto split: option.splits)
    with Cons.IH Cons.prems(3) show ?thesis by blast
  next
    case (Some j)
    with Cons.prems(1) obtain p where p: "filter (\<lambda>e. node_key e = Some j) data = [p]"
      and l: "link_nodes data ds root' = Inr res"
      by (auto split: list.splits)
    show ?thesis
    proof (cases "d = a")
      case True
      with Some Cons.prems(3) p show ?thesis by auto
    next
      case False
      with Cons.prems(2) have "d \<in> set ds" by simp
      with Cons.IH[OF l] Cons.prems(3) show ?thesis by blast
    qed
  qed
qed

lemma linked_chain_parent:
  "linked h \<Longrightarrow> d \<in> set (hchain h) \<Longrightarrow> parent_key d = Some k \<Longrightarrow>
   \<exists>xs p ys. hchain h = xs @ d # p # ys \<and> node_key p = Some k"
proof (induction h rule: hchain.induct)
  case (1 d0 n p)
  then show ?case by simp
next
  case (2 d0 n p q)
  from hchain_hd[of q] obtain rest where rest: "hchain q = hdata q # rest" by blast
  show ?case
  proof (cases "d = d0")
    case True
    with "2.prems" have "node_key (hdata q) = Some k" by simp
    with True rest have "hchain (HNode d0 n p (Some q)) = [] @ d # hdata q # rest \<and> node_key (hdata q) = Some k"
      by simp
    then show ?thesis by blast
  next
    case False
    with "2.prems" have "linked q" "d \<in> set (hchain q)" by simp_all
    from "2.IH"[OF this "2.prems"(3)] obtain xs p' ys where
      "hchain q = xs @ d # p' # ys" "node_key p' = Some k" by blast
    then have "hchain (HNode d0 n p (Some q)) = (d0 # xs) @ d # p' # ys \<and> node_key p' = Some k"
      by simp
    then show ?thesis by blast
  qed
qed

lemma good_child:
  assumes uniq: "\<And>d k. d \<in> set data \<Longrightarrow> parent_key d = Some k \<Longrightarrow>
                  \<exists>p. filter (\<lambda>e. node_key e = Some k) data = [p]"
    and g: "good_node data h" and c: "c \<in> set (children_nodes data h)"
  shows "good_node data c"
proof -
  from c obtain i where i: "i < length (children_of data (hdata h))"
    and ci: "c = HNode (children_of data (hdata h) ! i) (Suc (hdepth h)) (hpath h @ [i]) (Some h)"
    by (auto simp: children_nodes_def in_set_enumerate_eq)
  define cd where "cd = children_of data (hdata h) ! i"
  from i have cd: "cd \<in> set (children_of data (hdata h))" by (simp add: cd_def)
  from ci have ceq: "c = HNode cd (Suc (hdepth h)) (hpath h @ [i]) (Some h)" by (simp add: cd_def)
  from cd have cdp: "cd \<in> set data" "parent_key cd = node_key (hdata h)"
    "node_key (hdata h) \<noteq> None"
    by (auto simp: children_of_def split: option.splits intro: sym)
  then obtain k where k: "node_key (hdata h) = Some k" "parent_key cd = Some k" "cd \<in> set data"
    by (cases "node_key (hdata h)") simp_all
  from g have sub: "set (hchain h) \<subseteq> set data" and dis: "distinct (hchain h)"
    and len: "length (hchain h) = Suc (hdepth h)" and lk: "linked h"
    by (simp_all add: good_node_def)
  from hchain_hd[of h] obtain rest where rest: "hchain h = hdata h # rest" by blast
  have notin: "cd \<notin> set (hchain h)"
  proof
    assume "cd \<in> set (hchain h)"
    from linked_chain_parent[OF lk this k(2)] obtain xs p ys where
      ch: "hchain h = xs @ cd # p # ys" and pk: "node_key p = Some k" by blast
    from uniq[OF k(3) k(2)] obtain u where u: "filter (\<lambda>e. node_key e = Some k) data = [u]" by blast
    have "p \<in> set data" using sub ch by auto
    with pk have "p \<in> set (filter (\<lambda>e. node_key e = Some k) data)" by simp
    then have pu: "p = u" unfolding u by simp
    have "hdata h \<in> set data" using sub rest by auto
    with k(1) have "hdata h \<in> set (filter (\<lambda>e. node_key e = Some k) data)" by simp
    then have "hdata h = u" unfolding u by simp
    with pu have "hdata h = p" by simp
    with rest ch have "hd (xs @ cd # p # ys) = p" by (metis list.sel(1))
    with dis show False unfolding ch by (cases xs) auto
  qed
  have "hchain c = cd # hchain h" by (simp add: ceq)
  moreover have "linked c" using lk k by (simp add: ceq)
  moreover have "hdepth c = Suc (hdepth h)" by (simp add: ceq)
  ultimately show ?thesis
    using sub dis len notin k(3) by (simp add: good_node_def)
qed

lemma good_levels:
  assumes uniq: "\<And>d k. d \<in> set data \<Longrightarrow> parent_key d = Some k \<Longrightarrow>
                  \<exists>p. filter (\<lambda>e. node_key e = Some k) data = [p]"
    and rt: "rt \<in> set data" "parent_key rt = None"
  shows "\<forall>h\<in>set (nth_level data (HNode rt 0 [] None) j). good_node data h \<and> hdepth h = j"
proof (induction j)
  case 0
  show ?case using rt by (simp add: good_node_def)
next
  case (Suc j)
  show ?case
  proof
    fix c assume "c \<in> set (nth_level data (HNode rt 0 [] None) (Suc j))"
    then obtain h where h: "h \<in> set (nth_level data (HNode rt 0 [] None) j)"
      and c: "c \<in> set (children_nodes data h)" by auto
    from Suc h have g: "good_node data h" and d: "hdepth h = j" by auto
    from good_child[OF uniq g c] children_nodes_props[OF c] d
    show "good_node data c \<and> hdepth c = Suc j" by simp
  qed
qed

lemma good_node_depth: "good_node data h \<Longrightarrow> hdepth h < length data"
proof -
  assume g: "good_node data h"
  then have "length (hchain h) = card (set (hchain h))" by (simp add: good_node_def distinct_card)
  also have "\<dots> \<le> card (set data)" using g by (simp add: good_node_def card_mono)
  also have "\<dots> \<le> length data" by (rule card_length)
  finally show ?thesis using g by (simp add: good_node_def)
qed

lemma each_level_total:
  assumes "link_nodes data data None = Inr (Some rt)"
  shows "\<exists>hs. each_level data [HNode rt 0 [] None] = Some hs"
proof -
  from link_nodes_Inr[OF assms] have f: "filter (\<lambda>d. parent_key d = None) data = [rt]"
    by (auto split: list.splits)
  then have "rt \<in> set (filter (\<lambda>d. parent_key d = None) data)" by simp
  then have rt: "rt \<in> set data" "parent_key rt = None" by simp_all
  have uniq: "\<exists>p. filter (\<lambda>e. node_key e = Some k) data = [p]"
    if "d \<in> set data" "parent_key d = Some k" for d k
    using link_nodes_parents[OF assms that] .
  have "nth_level data (HNode rt 0 [] None) (length data) = []"
  proof (rule ccontr)
    assume "nth_level data (HNode rt 0 [] None) (length data) \<noteq> []"
    then obtain h where "h \<in> set (nth_level data (HNode rt 0 [] None) (length data))"
      by (cases "nth_level data (HNode rt 0 [] None) (length data)") auto
    with good_levels[where j = "length data" and data = data and rt = rt, OF uniq rt] have "good_node data h" "hdepth h = length data"
      by auto
    with good_node_depth[of data h] show False by simp
  qed
  from each_level_levels[OF this, of 0] show ?thesis by simp
qed

lemma stratify_total: "\<exists>res. stratify data = Some res"
proof (cases "link_nodes data data None")
  case (Inl e)
  then show ?thesis by (simp add: stratify_def)
next
  case (Inr r)
  show ?thesis
  proof (cases r)
    case None
    with Inr show ?thesis by (simp add: stratify_def)
  next
    case (Some rt)
    with Inr each_level_total[of data rt] show ?thesis by (auto simp: stratify_def)
  qed
qed

lemma calculateTreeLayout_total: "\<exists>L. calculateTreeLayout ang ns r = Some L"
  using stratify_total[of "map snd ns"]
  by (auto simp: calculateTreeLayout_def Let_def split: sum.splits)

section \<open>Facts about the reachable states\<close>

lemma set_update_subset: "set (AList.update k v al) \<subseteq> insert (k, v) (set al)"
  by (induction al) auto

lemma set_map_entry_subset:
  "set (AList.map_entry k f al) \<subseteq> set al \<union> {(k, f v) | v. (k, v) \<in> set al}"
  by (induction al) auto

lemma entries_update:
  assumes "\<forall>(k, n)\<in>set al. P k n" "P k v"
  shows "\<forall>(k, n)\<in>set (AList.update k v al). P k n"
  using assms set_update_subset[of k v al] by auto

lemma entries_map_entry:
  assumes "\<forall>(k, n)\<in>set al. P k n" "\<And>v. P k v \<Longrightarrow> P k (f v)"
  shows "\<forall>(k, n)\<in>set (AList.map_entry k f al). P k n"
  using assms set_map_entry_subset[of k f al] by fastforce

lemma entries_fold_update:
  assumes "\<forall>(k, n)\<in>set al. P k n" "\<And>idea c. (idea, c) \<in> set ps \<Longrightarrow> P c (g c idea)"
  shows "\<forall>(k, n)\<in>set (fold (\<lambda>(idea, childId). AList.update childId (g childId idea)) ps al). P k n"
  using assms
proof (induction ps arbitrary: al)
  case Nil
  then show ?case by simp
next
  case (Cons p ps)
  obtain idea c where p: "p = (idea, c)" by (cases p)
  have "\<forall>(k, n)\<in>set (AList.update c (g c idea) al). P k n"
    by (rule entries_update) (use Cons.prems p in auto)
  then have "\<forall>(k, n)\<in>set (fold (\<lambda>(idea, childId). AList.update childId (g childId idea)) ps
       (AList.update c (g c idea) al)). P k n"
    by (rule Cons.IH) (use Cons.prems(2) in auto)
  then show ?case by (simp add: p)
qed

lemma distinct_fold_update:
  "distinct (map fst al) \<Longrightarrow>
   distinct (map fst (fold (\<lambda>(idea, childId). AList.update childId (g childId idea)) ps al))"
  by (induction ps arbitrary: al) (auto simp: distinct_update)

lemma entry_ok_flags [simp]:
  "entry_ok k (n\<lparr>isLoading := a\<rparr>) = entry_ok k n"
  "entry_ok k (n\<lparr>isExpanded := b\<rparr>) = entry_ok k n"
  "entry_ok k (n\<lparr>childrenIds := c\<rparr>) = entry_ok k n"
  by (simp_all add: entry_ok_def)

lemma entry_ok_spread:
  assumes "\<forall>(k, n)\<in>set al. entry_ok k n"
  shows "entry_ok k (spread (map_of al k))"
proof (cases "map_of al k")
  case None
  then show ?thesis by (simp add: spread_def empty_obj_def entry_ok_def)
next
  case (Some n)
  then have "(k, n) \<in> set al" by (rule map_of_SomeD)
  with assms Some show ?thesis by (auto simp: spread_def)
qed

lemma entry_ok_new_child: "d \<le> MAX_DEPTH \<Longrightarrow> entry_ok c (new_child c idea p (Num d))"
  by (simp add: entry_ok_def new_child_def)

lemma commit_ideas_entries:
  assumes "\<forall>(k, n)\<in>set prev. entry_ok k n" "d \<le> MAX_DEPTH"
  shows "\<forall>(k, n)\<in>set (commit_ideas nodeId (Num d) ideas uuids prev). entry_ok k n"
  unfolding commit_ideas_def Let_def
  by (intro entries_map_entry entries_fold_update entries_update assms(1))
     (simp_all add: entry_ok_spread[OF assms(1)] entry_ok_new_child[OF assms(2)])

lemma commit_ideas_distinct:
  "distinct (map fst prev) \<Longrightarrow> distinct (map fst (commit_ideas nodeId d ideas uuids prev))"
  unfolding commit_ideas_def Let_def
  by (intro distinct_map_entry distinct_fold_update) (simp add: distinct_update)

lemma commit_ideas_lookup_other:
  assumes "k \<notin> set uuids" "k \<noteq> nodeId"
  shows "map_of (commit_ideas nodeId d ideas uuids prev) k = map_of prev k"
proof -
  have "k \<notin> set (map snd (zip ideas uuids))" using assms(1) by (auto dest: set_zip_rightD)
  then show ?thesis
    unfolding commit_ideas_def Let_def
    using assms(2) by (simp add: map_of_map_entry fold_update_other update_conv')
qed

lemma commit_ideas_lookup_parent:
  assumes "nodeId \<notin> set uuids"
  shows "map_of (commit_ideas nodeId d ideas uuids prev) nodeId =
     Some ((spread (map_of prev nodeId))\<lparr>isExpanded := Some True, isLoading := Some False,
              childrenIds := Some (map snd (zip ideas uuids))\<rparr>)"
proof -
  have "nodeId \<notin> set (map snd (zip ideas uuids))" using assms(1) by (auto dest: set_zip_rightD)
  then show ?thesis
    unfolding commit_ideas_def Let_def
    by (simp add: map_of_map_entry fold_update_other update_conv')
qed


lemma store_ok_fields [simp]:
  "store_ok (st\<lparr>inputQuery := q\<rparr>) = store_ok st"
  "store_ok (st\<lparr>isGenerating := g\<rparr>) = store_ok st"
  "store_ok (st\<lparr>focusedNodeId := f\<rparr>) = store_ok st"
  by (simp_all add: store_ok_def)

lemma store_okD:
  assumes "store_ok st"
  shows "distinct (map fst (nodes st))" and "\<forall>(k, n)\<in>set (nodes st). entry_ok k n"
    and "\<forall>r. rootId st = Some r \<longrightarrow>
        (\<exists>n. map_of (nodes st) r = Some n \<and> id' n = Some r \<and> parent_key n = None)"
  using assms unfolding store_ok_def by blast+

lemma store_ok_flag_update:
  assumes "store_ok st"
    and "\<And>n. v n = n\<lparr>isLoading := a\<rparr>"
  shows "store_ok (st\<lparr>nodes := AList.update k (v (spread (map_of (nodes st) k))) (nodes st)\<rparr>)"
proof -
  note d = store_okD(1)[OF assms(1)] and e = store_okD(2)[OF assms(1)] and r = store_okD(3)[OF assms(1)]
  have "entry_ok k (v (spread (map_of (nodes st) k)))"
    using entry_ok_spread[OF e, of k] by (simp add: assms(2))
  then have e': "\<forall>(k', n)\<in>set (AList.update k (v (spread (map_of (nodes st) k))) (nodes st)). entry_ok k' n"
    by (rule entries_update[OF e])
  have r': "\<exists>n. map_of (AList.update k (v (spread (map_of (nodes st) k))) (nodes st)) r' = Some n
        \<and> id' n = Some r' \<and> parent_key n = None" if "rootId st = Some r'" for r'
  proof -
    from r that obtain n where n: "map_of (nodes st) r' = Some n" "id' n = Some r'" "parent_key n = None"
      by blast
    show ?thesis
    proof (cases "r' = k")
      case True
      with n show ?thesis by (simp add: update_conv' spread_def assms(2) parent_key_def)
    next
      case False
      with n show ?thesis by (simp add: update_conv')
    qed
  qed
  show ?thesis
    unfolding store_ok_def using d e' r' by (simp add: distinct_update)
qed

lemma store_ok_loading:
  "store_ok st \<Longrightarrow> store_ok (st\<lparr>nodes := handleExpandNode_loading k (nodes st)\<rparr>)"
  unfolding handleExpandNode_loading_def
  by (rule store_ok_flag_update[where v = "\<lambda>n. n\<lparr>isLoading := Some True\<rparr>"]) simp_all

lemma store_ok_catch:
  "store_ok st \<Longrightarrow> store_ok (st\<lparr>nodes := catch_reset k (nodes st)\<rparr>)"
  unfolding catch_reset_def
  by (rule store_ok_flag_update[where v = "\<lambda>n. n\<lparr>isLoading := Some False\<rparr>"]) simp_all

lemma store_ok_commit:
  assumes "store_ok st" "d \<le> MAX_DEPTH" "set uuids \<inter> set (map fst (nodes st)) = {}"
  shows "store_ok (st\<lparr>nodes := commit_ideas k (Num d) ideas uuids (nodes st)\<rparr>)"
proof -
  note di = store_okD(1)[OF assms(1)] and e = store_okD(2)[OF assms(1)] and r = store_okD(3)[OF assms(1)]
  have r': "\<exists>n. map_of (commit_ideas k (Num d) ideas uuids (nodes st)) r' = Some n
        \<and> id' n = Some r' \<and> parent_key n = None" if "rootId st = Some r'" for r'
  proof -
    from r that obtain n where n: "map_of (nodes st) r' = Some n" "id' n = Some r'" "parent_key n = None"
      by blast
    from n(1) have "r' \<in> set (map fst (nodes st))" by (force dest: map_of_SomeD)
    with assms(3) have nu: "r' \<notin> set uuids" by auto
    show ?thesis
    proof (cases "r' = k")
      case True
      with n commit_ideas_lookup_parent[of k uuids "Num d" ideas "nodes st"] nu
      show ?thesis by (simp add: spread_def parent_key_def)
    next
      case False
      with n commit_ideas_lookup_other[OF nu False] show ?thesis by simp
    qed
  qed
  show ?thesis
    unfolding store_ok_def
    using commit_ideas_distinct[OF di] commit_ideas_entries[OF e assms(2)] r' by simp
qed

lemma store_ok_initial: "store_ok initial_state"
  by (simp add: store_ok_def initial_state_def)

lemma store_ok_reset: "store_ok (handleReset st)"
  by (simp add: store_ok_def handleReset_def)

lemma store_ok_start:
  "handleStartBrainstorm q newRootId st = Awaiting rq k st' \<Longrightarrow> store_ok st'"
  by (auto simp: handleStartBrainstorm_def store_ok_def newRoot_def entry_ok_def parent_key_def
      Let_def split: if_splits)

lemma fresh_uuidsD: "fresh_uuids uuids res prev \<Longrightarrow> set uuids \<inter> set (map fst prev) = {}"
  by (simp add: fresh_uuids_def)

lemma store_ok_root_then:
  assumes "store_ok st" "fresh_uuids uuids res (nodes st)"
  shows "store_ok (handleStartBrainstorm_then k res uuids st)"
proof (cases res)
  case (Fulfilled ideas)
  have "(1::nat) \<le> MAX_DEPTH" by (simp add: MAX_DEPTH_def)
  from store_ok_commit[OF assms(1) this fresh_uuidsD[OF assms(2)], of k ideas] Fulfilled
  show ?thesis by (simp add: handleStartBrainstorm_then_def)
next
  case Rejected
  with store_ok_catch[OF assms(1), of k] show ?thesis by (simp add: handleStartBrainstorm_then_def)
qed

lemma store_ok_expand_then:
  assumes "store_ok st" "fresh_uuids uuids res (nodes st)" "depth (snd k) = Some (Num d)" "d < MAX_DEPTH"
  shows "store_ok (handleExpandNode_then k res uuids st)"
proof (cases res)
  case (Fulfilled ideas)
  have "Suc d \<le> MAX_DEPTH" using assms(4) by simp
  from store_ok_commit[OF assms(1) this fresh_uuidsD[OF assms(2)], of "fst k" ideas] Fulfilled assms(3)
  show ?thesis by (simp add: handleExpandNode_then_def js_add1_def)
next
  case Rejected
  with store_ok_catch[OF assms(1), of "fst k"] show ?thesis by (simp add: handleExpandNode_then_def)
qed


lemma shown_node_ok:
  assumes ok: "store_ok sh" and L: "layout_of ang sh = Some L" and n: "n \<in> set (lnodes L)"
  shows "\<exists>k d. (k, ldata n) \<in> set (nodes sh) \<and> id' (ldata n) = Some k
           \<and> depth (ldata n) = Some (Num d) \<and> d \<le> MAX_DEPTH"
proof -
  note e = store_okD(2)[OF ok] and r = store_okD(3)[OF ok]
  let ?data = "map snd (nodes sh)"
  from L n obtain rid hs where rid: "rootId sh = Some rid"
    and st: "stratify ?data = Some (Inr hs)"
    and Lh: "lnodes L = map (toLayoutNode ang) hs"
    by (auto simp: layout_of_def calculateTreeLayout_def Let_def
        split: if_splits option.splits sum.splits)
  from n Lh obtain h where h: "h \<in> set hs" "ldata n = hdata h" by auto
  from stratify_InrD[OF st] obtain rt where f: "filter (\<lambda>d. parent_key d = None) ?data = [rt]"
    and el: "\<forall>h\<in>set hs. h = HNode rt 0 [] None \<or>
                 ((\<exists>p. hparent h = Some p \<and> hdepth h = Suc (hdepth p)) \<and> hdata h \<in> set ?data)"
    by blast
  have "rt \<in> set (filter (\<lambda>d. parent_key d = None) ?data)" unfolding f by simp
  then have rtd: "rt \<in> set ?data" by simp
  have hd: "hdata h \<in> set ?data"
  proof (cases "h = HNode rt 0 [] None")
    case True
    with rtd show ?thesis by simp
  next
    case False
    with el h(1) show ?thesis by blast
  qed
  from hd obtain k where k: "(k, hdata h) \<in> set (nodes sh)" by auto
  with e have eo: "entry_ok k (hdata h)" by auto
  from r rid obtain rn where rn: "map_of (nodes sh) rid = Some rn" "id' rn = Some rid"
    "parent_key rn = None" by blast
  from rn(1) have "rn \<in> set ?data" by (force dest: map_of_SomeD)
  with rn(3) have "rn \<in> set (filter (\<lambda>d. parent_key d = None) ?data)" by simp
  then have rnrt: "rn = rt" unfolding f by simp
  have "id' (hdata h) \<noteq> None"
  proof
    assume none: "id' (hdata h) = None"
    with eo have "parentId (hdata h) = None" by (simp add: entry_ok_def)
    then have "parent_key (hdata h) = None" by (simp add: parent_key_def)
    with hd have "hdata h \<in> set (filter (\<lambda>d. parent_key d = None) ?data)" by simp
    then have "hdata h = rt" unfolding f by simp
    with rnrt rn(2) none show False by simp
  qed
  with eo obtain d where "id' (hdata h) = Some k" "depth (hdata h) = Some (Num d)" "d \<le> MAX_DEPTH"
    by (auto simp: entry_ok_def)
  with k h(2) show ?thesis by auto
qed

lemma click_captures:
  assumes ok: "store_ok sh" and L: "layout_of ang sh = Some L" and n: "n \<in> set (lnodes L)"
    and c: "handleClick (ldata n) = Some (Expand (Some nodeId))"
    and a: "handleExpandNode (nodes sh) nodeId cu = Some (Awaiting rq k st')"
  shows "(\<exists>d<MAX_DEPTH. depth (snd k) = Some (Num d))
       \<and> st' = cu\<lparr>focusedNodeId := Some nodeId, nodes := handleExpandNode_loading nodeId (nodes cu)\<rparr>"
proof -
  from shown_node_ok[OF ok L n] obtain j d where j: "(j, ldata n) \<in> set (nodes sh)"
    "id' (ldata n) = Some j" "depth (ldata n) = Some (Num d)" "d \<le> MAX_DEPTH" by blast
  from c j(2) have jn: "j = nodeId" by (auto simp: handleClick_def split: option.splits if_splits)
  from c j(3) have lt: "d < MAX_DEPTH"
    by (auto simp: handleClick_def isMaxDepth_def split: option.splits if_splits)
  from handleExpandNode_AwaitingD[OF a] obtain m where m: "map_of (nodes sh) nodeId = Some m"
    "k = (nodeId, m)"
    "st' = cu\<lparr>focusedNodeId := Some nodeId, nodes := handleExpandNode_loading nodeId (nodes cu)\<rparr>"
    by blast
  from j(1) jn store_okD(1)[OF ok] have "map_of (nodes sh) nodeId = Some (ldata n)" by simp
  with m(1) have "m = ldata n" by simp
  with m(2,3) j(3) lt show ?thesis by auto
qed

lemma ui_reachable_ok: "ui_reachable s \<Longrightarrow> ui_ok s"
proof (induction rule: ui_reachable.induct)
  case init
  show ?case by (simp add: ui_ok_def store_ok_initial)
next
  case (render s)
  then show ?case by (simp add: ui_ok_def)
next
  case (typing s q)
  then show ?case by (simp add: ui_ok_def)
next
  case (start s newRootId rq k st')
  from store_ok_start[OF start.hyps(4)] start.IH show ?case by (simp add: ui_ok_def)
next
  case (reset s)
  then show ?case by (simp add: ui_ok_def store_ok_reset)
next
  case (centre s)
  then show ?case by (simp add: ui_ok_def)
next
  case (click s ang L n nodeId rq k st')
  from click.IH have okc: "store_ok (cur s)" and oks: "store_ok (shown s)"
    and w: "\<forall>(i, node)\<in>set (waiting_expand s). \<exists>d<MAX_DEPTH. depth node = Some (Num d)"
    by (simp_all add: ui_ok_def)
  from click_captures[OF oks click.hyps(2,3,4,5)]
  have d: "\<exists>d<MAX_DEPTH. depth (snd k) = Some (Num d)"
    and st': "st' = (cur s)\<lparr>focusedNodeId := Some nodeId,
                 nodes := handleExpandNode_loading nodeId (nodes (cur s))\<rparr>" by simp_all
  have "store_ok st' = store_ok ((cur s)\<lparr>nodes := handleExpandNode_loading nodeId (nodes (cur s))\<rparr>)"
    by (simp add: st' store_ok_def)
  with store_ok_loading[OF okc, of nodeId] have "store_ok st'" by simp
  with oks w d show ?case by (cases k) (simp add: ui_ok_def)
next
  case (settle_root s k uuids res)
  from settle_root.IH have okc: "store_ok (cur s)" and oks: "store_ok (shown s)"
    and w: "\<forall>(i, node)\<in>set (waiting_expand s). \<exists>d<MAX_DEPTH. depth node = Some (Num d)"
    by (simp_all add: ui_ok_def)
  from store_ok_root_then[OF okc settle_root.hyps(3)] oks w show ?case by (simp add: ui_ok_def)
next
  case (settle_expand s k uuids res)
  from settle_expand.IH have okc: "store_ok (cur s)" and oks: "store_ok (shown s)"
    and w: "\<forall>(i, node)\<in>set (waiting_expand s). \<exists>d<MAX_DEPTH. depth node = Some (Num d)"
    by (simp_all add: ui_ok_def)
  from w settle_expand.hyps(2) obtain d where d: "depth (snd k) = Some (Num d)" "d < MAX_DEPTH"
    by (cases k) auto
  have w': "\<forall>(i, node)\<in>set (remove1 k (waiting_expand s)). \<exists>d<MAX_DEPTH. depth node = Some (Num d)"
    using w set_remove1_subset[of k "waiting_expand s"] by blast
  from store_ok_expand_then[OF okc settle_expand.hyps(3) d] oks w' show ?case by (simp add: ui_ok_def)
qed

lemma ex_ui_reachable: "ui_reachable ex_ui"
proof -
  let ?s0 = "\<lparr>cur = initial_state, shown = initial_state, waiting_root = [], waiting_expand = []\<rparr>"
  have s0: "ui_reachable ?s0" by (rule ui_reachable.init)
  let ?s1 = "?s0\<lparr>cur := initial_state\<lparr>inputQuery := ''Idea''\<rparr>\<rparr>"
  have s1: "ui_reachable ?s1"
    using ui_reachable.typing[OF s0, of "''Idea''"] by (simp add: initial_state_def truthy_id_def)
  let ?s2 = "?s1\<lparr>shown := initial_state\<lparr>inputQuery := ''Idea''\<rparr>\<rparr>"
  have s2: "ui_reachable ?s2"
    using ui_reachable.render[OF s1] by simp
  let ?st3 = "\<lparr>nodes = [(''r'', newRoot ''r'' ''Idea'')], rootId = Some ''r'', inputQuery = ''Idea'',
                isGenerating = True, focusedNodeId = Some ''r''\<rparr>"
  have h: "handleStartBrainstorm (inputQuery (shown ?s2)) ''r'' (cur ?s2)
      = Awaiting (Request (Some ''Idea'') []) ''r'' ?st3"
    by (simp add: handleStartBrainstorm_def initial_state_def js_trim_def js_space_def)
  let ?s3 = "?s2\<lparr>cur := ?st3, waiting_root := [''r'']\<rparr>"
  have s3: "ui_reachable ?s3"
    using ui_reachable.start[OF s2 _ _ h] by (simp add: initial_state_def truthy_id_def)
  have f: "fresh_uuids [''a''] (Fulfilled [''A'']) (nodes (cur ?s3))"
    by (simp add: fresh_uuids_def)
  have t: "handleStartBrainstorm_then ''r'' (Fulfilled [''A'']) [''a''] (cur ?s3) = ex_state"
    by (simp add: handleStartBrainstorm_then_def commit_ideas_def spread_def newRoot_def new_child_def
        ex_defs)
  let ?s4 = "?s3\<lparr>cur := ex_state, waiting_root := []\<rparr>"
  have s4: "ui_reachable ?s4"
    using ui_reachable.settle_root[OF s3, of "''r''" "[''a'']" "Fulfilled [''A'']"] f t by simp
  have "ui_reachable (?s4\<lparr>shown := cur ?s4\<rparr>)" by (rule ui_reachable.render[OF s4])
  then show ?thesis by (simp add: ex_ui_def)
qed

lemma ex_shown_child:
  "\<exists>L n. layout_of ang (shown ex_ui) = Some L \<and> n \<in> set (lnodes L) \<and> ldata n = ex_child"
proof -
  have rt: "(''r'', ex_root) \<in> set (nodes ex_state)" by (simp add: ex_defs)
  from vt_layout[OF ex_valid_tree rt, of ang] obtain hs where
    L: "calculateTreeLayout ang (nodes ex_state) ''r''
        = Some \<lparr>lnodes = map (toLayoutNode ang) hs,
                links = map (\<lambda>(p, h). (toLayoutNode ang p, toLayoutNode ang h)) (hlinks hs)\<rparr>"
    and s: "set (map hdata hs) = set (map snd (nodes ex_state))" by blast
  have "ex_child \<in> set (map snd (nodes ex_state))" by (simp add: ex_defs)
  then have "ex_child \<in> set (map hdata hs)" by (simp only: s)
  then obtain h where h: "h \<in> set hs" "hdata h = ex_child" by auto
  have "layout_of ang (shown ex_ui) = calculateTreeLayout ang (nodes ex_state) ''r''"
    by (simp add: layout_of_def ex_ui_def) (simp add: ex_state_def)
  with L h show ?thesis
    by (intro exI[of _ "\<lparr>lnodes = map (toLayoutNode ang) hs,
                links = map (\<lambda>(p, h). (toLayoutNode ang p, toLayoutNode ang h)) (hlinks hs)\<rparr>"]
          exI[of _ "toLayoutNode ang h"]) simp
qed

lemma ex_stale_cur:
  "handleExpandNode_then (''a'', ex_child) (Fulfilled [''B'']) [''u1'']
     (handleReset (ex_state\<lparr>focusedNodeId := Some ''a'',
          nodes := [(''r'', ex_root), (''a'', ex_child\<lparr>isLoading := Some True\<rparr>)]\<rparr>)) = cur ex_stale"
  by (simp add: ex_stale_def)
     (simp add: handleReset_def handleExpandNode_then_def commit_ideas_def js_add1_def spread_def
          empty_obj_def ex_defs new_child_def)

lemma ex_stale_reachable: "ui_reachable ex_stale"
proof -
  from ex_shown_child[of "\<lambda>p. 0"] obtain L n where L: "layout_of (\<lambda>p. 0) (shown ex_ui) = Some L"
    and n: "n \<in> set (lnodes L)" and d: "ldata n = ex_child" by blast
  have c: "handleClick (ldata n) = Some (Expand (Some ''a''))"
    by (simp add: d handleClick_def isMaxDepth_def MAX_DEPTH_def ex_child_def)
  let ?st1 = "ex_state\<lparr>focusedNodeId := Some ''a'',
          nodes := [(''r'', ex_root), (''a'', ex_child\<lparr>isLoading := Some True\<rparr>)]\<rparr>"
  have a: "handleExpandNode (nodes (shown ex_ui)) ''a'' (cur ex_ui)
      = Some (Awaiting (Request (Some ''A'') [Some ''Idea'']) (''a'', ex_child) ?st1)"
    using handleExpandNode_ex by (simp add: ex_ui_def)
  let ?s1 = "ex_ui\<lparr>cur := ?st1, waiting_expand := [(''a'', ex_child)]\<rparr>"
  have s1: "ui_reachable ?s1"
    using ui_reachable.click[OF ex_ui_reachable L n c a] by (simp add: ex_ui_def)
  let ?s2 = "?s1\<lparr>cur := handleReset ?st1\<rparr>"
  have s2: "ui_reachable ?s2"
    using ui_reachable.reset[OF s1] by (simp add: ex_ui_def ex_state_def truthy_id_def)
  have f: "fresh_uuids [''u1''] (Fulfilled [''B'']) (nodes (cur ?s2))"
    by (simp add: fresh_uuids_def handleReset_def)
  let ?s3 = "?s2\<lparr>cur := handleExpandNode_then (''a'', ex_child) (Fulfilled [''B'']) [''u1''] (cur ?s2),
                      waiting_expand := remove1 (''a'', ex_child) (waiting_expand ?s2)\<rparr>"
  have s3: "ui_reachable ?s3"
    by (rule ui_reachable.settle_expand[OF s2 _ f]) simp_all
  have "?s3 = ex_stale"
  proof (rule ui_state.equality)
    show "cur ?s3 = cur ex_stale" using ex_stale_cur by simp
  qed (simp_all add: ex_stale_def ex_ui_def)
  with s3 show ?thesis by simp
qed


subsection \<open>The handlers return\<close>

text \<open>
  The path loop of \<open>handleExpandNode\<close> ends on a store whose parent links descend along
  a rank. Every reachable store is one (a new child gets the rank of its parent plus
  one), so in every reachable state a click returns and the layout is computed.
\<close>

lemma parents_rankedD:
  "parents_ranked f ns \<Longrightarrow> (k, n) \<in> set ns \<Longrightarrow> parentId n = Some (Ref p) \<Longrightarrow>
   p \<in> set (map fst ns) \<and> f p < f k"
  by (auto simp: parents_ranked_def list_all_iff link_ok_def)

lemma path_loop_total:
  assumes r: "parents_ranked f ns"
  shows "map_of ns k = Some c \<Longrightarrow> \<exists>path'. path_loop ns (Some c) path = Some path'"
proof (induction "f k" arbitrary: k c path rule: less_induct)
  case less
  from less.prems have mem: "(k, c) \<in> set ns" by (rule map_of_SomeD)
  show ?case
  proof (cases "\<exists>q. parentId c = Some (Ref q) \<and> q \<noteq> []")
    case False
    then have "parentId c = None \<or> parentId c = Some Null \<or> parentId c = Some (Ref [])"
      by (cases "parentId c") (auto intro: parent_ref.exhaust)
    then show ?thesis by (simp add: path_loop_stop)
  next
    case True
    then obtain q where q: "parentId c = Some (Ref q)" "q \<noteq> []" by blast
    from parents_rankedD[OF r mem q(1)] have "q \<in> set (map fst ns)" and lt: "f q < f k"
      by simp_all
    then obtain pn where Some: "map_of ns q = Some pn"
      by (cases "map_of ns q") (auto simp: map_of_eq_None_iff)
    from less.hyps[OF lt Some, of "text' pn # path"] q Some
    show ?thesis by (simp add: path_loop_step)
  qed
qed

lemma handleExpandNode_total:
  assumes "parents_ranked f captured"
  shows "\<exists>out. handleExpandNode captured nodeId st = Some out"
proof (cases "map_of captured nodeId")
  case None
  then show ?thesis by (simp add: handleExpandNode_def js_get_def empty_obj_def)
next
  case (Some node)
  from path_loop_total[OF assms Some, of "[]"] obtain path where
    "path_loop captured (Some node) [] = Some path" by blast
  with Some show ?thesis by (simp add: handleExpandNode_def split: option.splits)
qed

lemma vt_ranked:
  assumes "valid_tree ns r"
  shows "parents_ranked (depth_rank ns) ns"
proof -
  have "p \<in> set (map fst ns) \<and> depth_rank ns p < depth_rank ns k"
    if m: "(k, n) \<in> set ns" and p: "parentId n = Some (Ref p)" for k n p
  proof -
    from vt_root[OF assms] obtain rt where rt: "(r, rt) \<in> set ns" "parentId rt = Some Null" by blast
    have "k \<noteq> r"
    proof
      assume "k = r"
      with m rt(1) assms have "n = rt" by (simp add: vt_lookup)
      with rt(2) p show False by simp
    qed
    from vt_nonroot[OF assms m this] p obtain pn d where
      pn: "(p, pn) \<in> set ns" "depth pn = Some (Num d)" "depth n = Some (Num (Suc d))" by auto
    from pn(1) have "p \<in> set (map fst ns)" by force
    moreover from pn m assms have "depth_rank ns p < depth_rank ns k"
      by (simp add: vt_lookup depth_rank_def)
    ultimately show ?thesis ..
  qed
  then show ?thesis
    unfolding parents_ranked_def list_all_iff link_ok_def
    by (auto split: option.splits parent_ref.splits)
qed

lemma ex_ranked: "parents_ranked (depth_rank (nodes ex_state)) (nodes ex_state)"
  by (rule vt_ranked[OF ex_valid_tree])

lemma link_ok_mono: "link_ok f K k n \<Longrightarrow> K \<subseteq> K' \<Longrightarrow> link_ok f K' k n"
  by (auto simp: link_ok_def split: option.splits parent_ref.splits)

lemma link_ok_flags [simp]:
  "link_ok f K k (n\<lparr>isLoading := a\<rparr>) = link_ok f K k n"
  "link_ok f K k (n\<lparr>isExpanded := b\<rparr>) = link_ok f K k n"
  "link_ok f K k (n\<lparr>childrenIds := c\<rparr>) = link_ok f K k n"
  by (simp_all add: link_ok_def)

lemma link_ok_spread:
  assumes "\<forall>(k, n)\<in>set al. link_ok f K k n"
  shows "link_ok f K k (spread (map_of al k))"
proof (cases "map_of al k")
  case None
  then show ?thesis by (simp add: spread_def empty_obj_def link_ok_def)
next
  case (Some n)
  then have "(k, n) \<in> set al" by (rule map_of_SomeD)
  with assms Some show ?thesis by (auto simp: spread_def)
qed

lemma ranked_flag_update:
  assumes "parents_ranked f ns" and "\<And>n. v n = n\<lparr>isLoading := a\<rparr>"
  shows "parents_ranked f (AList.update k (v (spread (map_of ns k))) ns)"
proof -
  let ?K = "set (map fst ns)"
  let ?ns' = "AList.update k (v (spread (map_of ns k))) ns"
  from assms(1) have e: "\<forall>(k, n)\<in>set ns. link_ok f ?K k n"
    by (simp add: parents_ranked_def list_all_iff)
  have "link_ok f ?K k (v (spread (map_of ns k)))"
    using link_ok_spread[OF e, of k] by (simp add: assms(2))
  then have e': "\<forall>(k', n)\<in>set ?ns'. link_ok f ?K k' n"
    by (rule entries_update[OF e])
  have "?K \<subseteq> set (map fst ?ns')" by (auto simp: dom_update)
  with e' have "\<forall>(k', n)\<in>set ?ns'. link_ok f (set (map fst ?ns')) k' n"
    by (auto intro: link_ok_mono)
  then show ?thesis by (simp add: parents_ranked_def list_all_iff)
qed

lemma ranked_commit:
  assumes r: "parents_ranked f prev" and nu: "nodeId \<notin> set uuids"
    and fr: "set uuids \<inter> set (map fst prev) = {}"
  shows "parents_ranked (\<lambda>k. if k \<in> set uuids then Suc (f nodeId) else f k)
           (commit_ideas nodeId d ideas uuids prev)"
proof -
  let ?f = "\<lambda>k. if k \<in> set uuids then Suc (f nodeId) else f k"
  define K where "K = insert nodeId (set (map fst prev))"
  let ?K = K
  let ?ns' = "commit_ideas nodeId d ideas uuids prev"
  from r have e0: "\<forall>(k, n)\<in>set prev. link_ok f (set (map fst prev)) k n"
    by (simp add: parents_ranked_def list_all_iff)
  have e: "\<forall>(k, n)\<in>set prev. link_ok ?f ?K k n"
  proof (clarify)
    fix k n assume m: "(k, n) \<in> set prev"
    then have k: "k \<in> set (map fst prev)" by force
    with fr have ku: "k \<notin> set uuids" by auto
    from e0 m have l: "link_ok f (set (map fst prev)) k n" by auto
    show "link_ok ?f ?K k n"
    proof (cases "\<exists>p. parentId n = Some (Ref p)")
      case False
      then show ?thesis by (auto simp: link_ok_def split: option.splits parent_ref.splits)
    next
      case True
      then obtain p where p: "parentId n = Some (Ref p)" by blast
      with l have pk: "p \<in> set (map fst prev)" "f p < f k" by (simp_all add: link_ok_def)
      with fr have "p \<notin> set uuids" by auto
      with pk ku p show ?thesis by (simp add: link_ok_def K_def)
    qed
  qed
  have c: "link_ok ?f ?K c (new_child c idea nodeId d)" if "(idea, c) \<in> set (zip ideas uuids)" for idea c
  proof -
    from that have "c \<in> set uuids" by (rule set_zip_rightD)
    with nu show ?thesis by (simp add: link_ok_def new_child_def K_def)
  qed
  have e': "\<forall>(k, n)\<in>set ?ns'. link_ok ?f ?K k n"
    unfolding commit_ideas_def Let_def
    by (intro entries_map_entry entries_fold_update entries_update e)
       (simp_all add: link_ok_spread[OF e] c)
  have "?K \<subseteq> set (map fst ?ns')"
  proof
    fix k assume "k \<in> ?K"
    then have k: "k \<in> insert nodeId (set (map fst prev))" by (simp add: K_def)
    have "map_of ?ns' k \<noteq> None"
    proof (cases "k = nodeId")
      case True
      with commit_ideas_lookup_parent[OF nu, of d ideas prev] show ?thesis by simp
    next
      case False
      with k have kp: "k \<in> set (map fst prev)" by simp
      with fr have "k \<notin> set uuids" by auto
      from commit_ideas_lookup_other[OF this False, of d ideas prev] kp
      show ?thesis by (simp add: map_of_eq_None_iff)
    qed
    then show "k \<in> set (map fst ?ns')" by (simp add: map_of_eq_None_iff)
  qed
  with e' have "\<forall>(k, n)\<in>set ?ns'. link_ok ?f (set (map fst ?ns')) k n"
    by (auto intro: link_ok_mono)
  then show ?thesis by (simp add: parents_ranked_def list_all_iff)
qed

lemma ranked_start:
  "handleStartBrainstorm q newRootId st = Awaiting rq k st' \<Longrightarrow> parents_ranked f (nodes st')"
  by (auto simp: handleStartBrainstorm_def parents_ranked_def link_ok_def newRoot_def Let_def
      split: if_splits)

lemma ranked_root_then:
  assumes "\<exists>f. parents_ranked f (nodes st)" "fresh_uuids uuids res (nodes st)" "k \<notin> set uuids"
  shows "\<exists>f. parents_ranked f (nodes (handleStartBrainstorm_then k res uuids st))"
proof -
  from assms(1) obtain f where f: "parents_ranked f (nodes st)" by blast
  show ?thesis
  proof (cases res)
    case (Fulfilled ideas)
    from ranked_commit[OF f assms(3) fresh_uuidsD[OF assms(2)], of "Num 1" ideas] Fulfilled
    show ?thesis by (auto simp: handleStartBrainstorm_then_def)
  next
    case Rejected
    from ranked_flag_update[OF f, of "\<lambda>n. n\<lparr>isLoading := Some False\<rparr>" "Some False" k] Rejected
    show ?thesis by (auto simp: handleStartBrainstorm_then_def catch_reset_def)
  qed
qed

lemma ranked_expand_then:
  assumes "\<exists>f. parents_ranked f (nodes st)" "fresh_uuids uuids res (nodes st)" "fst k \<notin> set uuids"
  shows "\<exists>f. parents_ranked f (nodes (handleExpandNode_then k res uuids st))"
proof -
  from assms(1) obtain f where f: "parents_ranked f (nodes st)" by blast
  show ?thesis
  proof (cases res)
    case (Fulfilled ideas)
    from ranked_commit[OF f assms(3) fresh_uuidsD[OF assms(2)], of "js_add1 (depth (snd k))" ideas] Fulfilled
    show ?thesis by (auto simp: handleExpandNode_then_def)
  next
    case Rejected
    from ranked_flag_update[OF f, of "\<lambda>n. n\<lparr>isLoading := Some False\<rparr>" "Some False" "fst k"] Rejected
    show ?thesis by (auto simp: handleExpandNode_then_def catch_reset_def)
  qed
qed

lemma ui_reachable_ranked:
  "ui_reachable s \<Longrightarrow>
   (\<exists>f. parents_ranked f (nodes (cur s))) \<and> (\<exists>f. parents_ranked f (nodes (shown s)))"
proof (induction rule: ui_reachable.induct)
  case init
  show ?case by (simp add: initial_state_def parents_ranked_def)
next
  case (render s)
  then show ?case by simp
next
  case (typing s q)
  then show ?case by simp
next
  case (start s newRootId rq k st')
  from ranked_start[OF start.hyps(4)] start.IH show ?case by auto
next
  case (reset s)
  then show ?case by (simp add: handleReset_def parents_ranked_def)
next
  case (centre s)
  then show ?case by simp
next
  case (click s ang L n nodeId rq k st')
  from click.IH obtain f where f: "parents_ranked f (nodes (cur s))" by blast
  from handleExpandNode_AwaitingD[OF click.hyps(5)]
  have st': "nodes st' = handleExpandNode_loading nodeId (nodes (cur s))" by auto
  from ranked_flag_update[OF f, of "\<lambda>n. n\<lparr>isLoading := Some True\<rparr>" "Some True" nodeId]
  have "parents_ranked f (nodes st')" by (simp add: st' handleExpandNode_loading_def)
  with click.IH show ?case by auto
next
  case (settle_root s k uuids res)
  from ranked_root_then[OF _ settle_root.hyps(3,4)] settle_root.IH show ?case by simp
next
  case (settle_expand s k uuids res)
  from ranked_expand_then[OF _ settle_expand.hyps(3,4)] settle_expand.IH show ?case by simp
qed

lemma ui_handlers_return:
  assumes "ui_reachable s"
  shows "(\<exists>out. handleExpandNode (nodes (shown s)) nodeId (cur s) = Some out)
       \<and> (\<exists>L. layout_of ang (shown s) = Some L)"
proof -
  from ui_reachable_ranked[OF assms] obtain f where "parents_ranked f (nodes (shown s))" by blast
  from handleExpandNode_total[OF this] calculateTreeLayout_total show ?thesis
    by (simp add: layout_of_def)
qed

subsection \<open>A late response after a new brainstorm\<close>

text \<open>
  The user resets while \<open>a\<close> is being expanded and starts a new brainstorm; its root
  \<open>r2\<close> is laid out at the origin. When the response for \<open>a\<close> then arrives, the commit
  adds a record for \<open>a\<close> without \<open>parentId\<close> and its child; \<open>stratify\<close> now finds two
  roots and throws, and the layout of the new brainstorm is empty.
\<close>

lemma restarted_layout:
  "calculateTreeLayout ang ex_restarted ''r2'' =
     Some \<lparr>lnodes = [\<lparr>lid = Some ''r2'', ldata = newRoot ''r2'' ''Q'', lx = 0, ly = 0, lparent = None\<rparr>],
           links = []\<rparr>"
  by (simp add: calculateTreeLayout_def ex_restarted_def newRoot_def stratify_def parent_key_def
      node_key_def each_level_step each_level_Nil children_nodes_def children_of_def hlinks_def
      toLayoutNode_def toLinks_def Let_def)

lemma stale_commit_blanks_layout:
  "calculateTreeLayout ang (commit_ideas ''a'' (Num 2) [''B''] [''u1''] ex_restarted) ''r2''
     = Some \<lparr>lnodes = [], links = []\<rparr>"
  by (simp add: calculateTreeLayout_def ex_restarted_def newRoot_def commit_ideas_def spread_def
      empty_obj_def new_child_def stratify_def parent_key_def node_key_def Let_def)

subsection \<open>The operations that find their target keep the tree invariant\<close>

text \<open>
  The empty store and the store of a new root satisfy the tree invariant, and the
  updaters of the handlers preserve it when the record they update is in the store (for
  the commit: with the depth the handler captured, and fresh UUIDs).
\<close>

lemma filter_update_same:
  assumes "\<And>n. map_of al k = Some n \<Longrightarrow> P (k, v) = P (k, n)"
    and "map_of al k = None \<Longrightarrow> \<not> P (k, v)"
  shows "length (filter P (AList.update k v al)) = length (filter P al)"
  using assms
proof (induction al)
  case Nil
  then show ?case by simp
next
  case (Cons a al)
  obtain k' n' where a: "a = (k', n')" by (cases a)
  show ?case
  proof (cases "k' = k")
    case True
    with Cons.prems(1)[of n'] a show ?thesis by simp
  next
    case False
    have "length (filter P (AList.update k v al)) = length (filter P al)"
      by (rule Cons.IH) (use Cons.prems a False in auto)
    with a False show ?thesis by simp
  qed
qed

lemma filter_map_entry_same:
  assumes "\<And>n. P (k, f n) = P (k, n)"
  shows "length (filter P (AList.map_entry k f al)) = length (filter P al)"
  by (induction al) (auto simp: assms)

lemma filter_fold_update:
  assumes "distinct (map snd ps)" "set (map snd ps) \<inter> set (map fst al) = {}"
    and "\<And>idea c. \<not> P (c, g c idea)"
  shows "length (filter P (fold (\<lambda>(idea, childId). AList.update childId (g childId idea)) ps al))
         = length (filter P al)"
  using assms(1,2)
proof (induction ps arbitrary: al)
  case Nil
  then show ?case by simp
next
  case (Cons p ps)
  obtain idea c where p: "p = (idea, c)" by (cases p)
  from Cons.prems p have fresh: "c \<notin> set (map fst al)" by auto
  then have none: "map_of al c = None" by (simp add: map_of_eq_None_iff)
  have 1: "length (filter P (AList.update c (g c idea) al)) = length (filter P al)"
    by (rule filter_update_same) (use none assms(3) in simp_all)
  have "set (map snd ps) \<inter> set (map fst (AList.update c (g c idea) al)) = {}"
    using Cons.prems p by (auto simp: dom_update)
  with Cons.prems(1) have
    "length (filter P (fold (\<lambda>(idea, childId). AList.update childId (g childId idea)) ps
        (AList.update c (g c idea) al))) = length (filter P (AList.update c (g c idea) al))"
    by (intro Cons.IH) simp_all
  with 1 show ?case by (simp add: p)
qed

lemma roots_flag_update:
  assumes "map_of prev nodeId = Some n" and "\<And>n. parentId (v n) = parentId n"
  shows "length (filter (\<lambda>(k, n). parentId n = Some Null) (AList.update nodeId (v (spread (map_of prev nodeId))) prev))
       = length (filter (\<lambda>(k, n). parentId n = Some Null) prev)"
  by (rule filter_update_same) (use assms in \<open>simp_all add: spread_def\<close>)

lemma roots_commit:
  assumes "map_of prev nodeId = Some n" "distinct uuids" "length uuids = length ideas"
    "set uuids \<inter> set (map fst prev) = {}"
  shows "length (filter (\<lambda>(k, n). parentId n = Some Null) (commit_ideas nodeId d ideas uuids prev))
       = length (filter (\<lambda>(k, n). parentId n = Some Null) prev)"
proof -
  let ?P = "\<lambda>(k, n). parentId n = Some Null"
  let ?v = "(spread (map_of prev nodeId))\<lparr>isExpanded := Some True, isLoading := Some False\<rparr>"
  have u: "length (filter ?P (AList.update nodeId ?v prev)) = length (filter ?P prev)"
    by (rule filter_update_same) (use assms(1) in \<open>simp_all add: spread_def\<close>)
  have ms: "map snd (zip ideas uuids) = uuids" using assms(3) by simp
  have mem: "nodeId \<in> set (map fst prev)" using assms(1) by (force dest: map_of_SomeD)
  have keys: "set (map fst (AList.update nodeId ?v prev)) = set (map fst prev)"
    using mem by (auto simp: dom_update)
  have f: "length (filter ?P (fold (\<lambda>(idea, childId). AList.update childId (new_child childId idea nodeId d))
               (zip ideas uuids) (AList.update nodeId ?v prev)))
        = length (filter ?P (AList.update nodeId ?v prev))"
    by (rule filter_fold_update) (use assms(2,4) in \<open>simp_all only: ms keys\<close>, simp add: new_child_def)
  have "length (filter ?P (commit_ideas nodeId d ideas uuids prev))
      = length (filter ?P (fold (\<lambda>(idea, childId). AList.update childId (new_child childId idea nodeId d))
               (zip ideas uuids) (AList.update nodeId ?v prev)))"
    unfolding commit_ideas_def Let_def by (rule filter_map_entry_same) simp
  with f u show ?thesis by simp
qed

lemma depth_consistent_flags [simp]:
  "depth_consistent ns (n\<lparr>isLoading := a\<rparr>) = depth_consistent ns n"
  "depth_consistent ns (n\<lparr>isExpanded := b\<rparr>) = depth_consistent ns n"
  "depth_consistent ns (n\<lparr>childrenIds := c\<rparr>) = depth_consistent ns n"
  by (simp_all add: depth_consistent_def split: option.splits parent_ref.splits jsnum.splits)

lemma depth_consistent_mono:
  assumes "depth_consistent prev n"
    and "\<And>p pn. map_of prev p = Some pn \<Longrightarrow> \<exists>pn'. map_of new p = Some pn' \<and> depth pn' = depth pn"
  shows "depth_consistent new n"
proof (cases "\<exists>p. parentId n = Some (Ref p)")
  case False
  with assms(1) show ?thesis
    by (auto simp: depth_consistent_def split: option.splits parent_ref.splits)
next
  case True
  then obtain p where p: "parentId n = Some (Ref p)" by blast
  with assms(1) obtain pn d where pn: "map_of prev p = Some pn" "depth pn = Some (Num d)"
    "depth n = Some (Num (Suc d))"
    by (auto simp: depth_consistent_def split: option.splits jsnum.splits)
  from assms(2)[OF pn(1)] obtain pn' where "map_of new p = Some pn'" "depth pn' = depth pn" by blast
  with p pn show ?thesis by (simp add: depth_consistent_def)
qed

lemma tree_invariant_flag_update:
  assumes t: "tree_invariant prev" and m: "map_of prev nodeId = Some n"
    and v: "\<And>n. v n = n\<lparr>isLoading := a\<rparr>"
  shows "tree_invariant (AList.update nodeId (v (spread (map_of prev nodeId))) prev)"
proof -
  let ?new = "AList.update nodeId (v (spread (map_of prev nodeId))) prev"
  from m have ne: "prev \<noteq> []" by auto
  with t have one: "length (filter (\<lambda>(k, n). parentId n = Some Null) prev) = 1"
    and dc: "\<forall>(k, n)\<in>set prev. depth_consistent prev n"
    by (simp_all add: tree_invariant_def list_all_iff)
  have look: "\<exists>pn'. map_of ?new p = Some pn' \<and> depth pn' = depth pn" if "map_of prev p = Some pn" for p pn
    using that m by (cases "p = nodeId") (simp_all add: update_conv' spread_def v)
  have e: "\<forall>(k, n)\<in>set prev. depth_consistent ?new n"
    using dc look by (auto intro: depth_consistent_mono)
  have "(nodeId, n) \<in> set prev" using m by (rule map_of_SomeD)
  with e have "depth_consistent ?new (v (spread (map_of prev nodeId)))"
    by (auto simp: m spread_def v)
  then have "\<forall>(k, n)\<in>set ?new. depth_consistent ?new n"
    by (rule entries_update[OF e])
  moreover have "length (filter (\<lambda>(k, n). parentId n = Some Null) ?new) = 1"
    using roots_flag_update[OF m, of v] one by (simp add: v)
  ultimately show ?thesis by (simp add: tree_invariant_def list_all_iff)
qed

lemma tree_invariant_commit:
  assumes t: "tree_invariant prev" and m: "map_of prev nodeId = Some n"
    and d: "depth n = Some (Num d)"
    and u: "distinct uuids" "length uuids = length ideas" "set uuids \<inter> set (map fst prev) = {}"
  shows "tree_invariant (commit_ideas nodeId (Num (Suc d)) ideas uuids prev)"
proof -
  define new where "new = commit_ideas nodeId (Num (Suc d)) ideas uuids prev"
  from m have ne: "prev \<noteq> []" by auto
  with t have one: "length (filter (\<lambda>(k, n). parentId n = Some Null) prev) = 1"
    and dc: "\<forall>(k, n)\<in>set prev. depth_consistent prev n"
    by (simp_all add: tree_invariant_def list_all_iff)
  from m have mem: "nodeId \<in> set (map fst prev)" by (force dest: map_of_SomeD)
  with u(3) have nu: "nodeId \<notin> set uuids" by auto
  have par: "map_of new nodeId = Some (n\<lparr>isExpanded := Some True, isLoading := Some False,
              childrenIds := Some (map snd (zip ideas uuids))\<rparr>)"
    unfolding new_def
    using commit_ideas_lookup_parent[OF nu, of "Num (Suc d)" ideas prev] m by (simp add: spread_def)
  have look: "\<exists>pn'. map_of new p = Some pn' \<and> depth pn' = depth pn" if p: "map_of prev p = Some pn" for p pn
  proof (cases "p = nodeId")
    case True
    with p m par show ?thesis by simp
  next
    case False
    from p have "p \<in> set (map fst prev)" by (force dest: map_of_SomeD)
    with u(3) have "p \<notin> set uuids" by auto
    from commit_ideas_lookup_other[OF this False, of "Num (Suc d)" ideas prev] p show ?thesis
      by (simp add: new_def)
  qed
  have e: "\<forall>(k, n)\<in>set prev. depth_consistent new n"
    using dc look by (auto intro: depth_consistent_mono)
  have "(nodeId, n) \<in> set prev" using m by (rule map_of_SomeD)
  with e have sp: "depth_consistent new (spread (map_of prev nodeId))"
    by (auto simp: m spread_def)
  have ch: "depth_consistent new (new_child c idea nodeId (Num (Suc d)))" for c idea
    by (simp add: depth_consistent_def new_child_def par d)
  have "\<forall>(k, n)\<in>set (commit_ideas nodeId (Num (Suc d)) ideas uuids prev). depth_consistent new n"
    unfolding commit_ideas_def Let_def
    by (intro entries_map_entry entries_fold_update entries_update e) (simp_all add: sp ch)
  then have "\<forall>(k, n)\<in>set new. depth_consistent new n" by (simp only: new_def)
  moreover have "length (filter (\<lambda>(k, n). parentId n = Some Null) new) = 1"
    using roots_commit[OF m u, of "Num (Suc d)"] one by (simp add: new_def)
  ultimately have "tree_invariant new" by (simp add: tree_invariant_def list_all_iff)
  then show ?thesis by (simp only: new_def)
qed

lemma tree_invariant_empty: "tree_invariant []"
  by (simp add: tree_invariant_def)

lemma tree_invariant_root: "tree_invariant [(r, newRoot r q)]"
  by (simp add: tree_invariant_def newRoot_def depth_consistent_def)

lemma tree_invariant_handlers:
  "tree_invariant (nodes (handleReset st))"
  "handleStartBrainstorm q newRootId st = Awaiting rq r st' \<Longrightarrow> tree_invariant (nodes st')"
  "tree_invariant (nodes st) \<Longrightarrow> map_of (nodes st) nodeId = Some n \<Longrightarrow>
   handleExpandNode captured nodeId st = Some (Awaiting rq' k st'') \<Longrightarrow> tree_invariant (nodes st'')"
proof -
  show "tree_invariant (nodes (handleReset st))"
    by (simp add: handleReset_def tree_invariant_empty)
  show "tree_invariant (nodes st')" if "handleStartBrainstorm q newRootId st = Awaiting rq r st'"
    using that by (auto simp: handleStartBrainstorm_def Let_def tree_invariant_root split: if_splits)
  show "tree_invariant (nodes st'')" if t: "tree_invariant (nodes st)"
    and m: "map_of (nodes st) nodeId = Some n"
    and a: "handleExpandNode captured nodeId st = Some (Awaiting rq' k st'')"
  proof -
    from handleExpandNode_AwaitingD[OF a]
    have "nodes st'' = handleExpandNode_loading nodeId (nodes st)" by auto
    with tree_invariant_flag_update[OF t m, of "\<lambda>n. n\<lparr>isLoading := Some True\<rparr>" "Some True"]
    show ?thesis by (simp add: handleExpandNode_loading_def)
  qed
qed

lemma tree_invariant_then:
  assumes "tree_invariant (nodes st)" and "map_of (nodes st) (fst k) = Some n"
    and "depth n = Some (Num d)" and "depth (snd k) = depth n"
    and "fresh_uuids uuids res (nodes st)"
  shows "tree_invariant (nodes (handleExpandNode_then k res uuids st))"
proof (cases res)
  case (Fulfilled ideas)
  from assms(5) Fulfilled have u: "distinct uuids" "length uuids = length ideas"
    "set uuids \<inter> set (map fst (nodes st)) = {}"
    by (simp_all add: fresh_uuids_def)
  from tree_invariant_commit[OF assms(1,2,3) u] Fulfilled assms(3,4)
  show ?thesis by (simp add: handleExpandNode_then_def js_add1_def)
next
  case Rejected
  from tree_invariant_flag_update[OF assms(1,2), of "\<lambda>n. n\<lparr>isLoading := Some False\<rparr>" "Some False"]
    Rejected
  show ?thesis by (simp add: handleExpandNode_then_def catch_reset_def)
qed

lemma tree_invariant_root_then:
  assumes "tree_invariant (nodes st)" and "map_of (nodes st) k = Some n"
    and "depth n = Some (Num 0)" and "fresh_uuids uuids res (nodes st)"
  shows "tree_invariant (nodes (handleStartBrainstorm_then k res uuids st))"
proof (cases res)
  case (Fulfilled ideas)
  from assms(4) Fulfilled have u: "distinct uuids" "length uuids = length ideas"
    "set uuids \<inter> set (map fst (nodes st)) = {}"
    by (simp_all add: fresh_uuids_def)
  from tree_invariant_commit[OF assms(1,2,3) u] Fulfilled
  show ?thesis by (simp add: handleStartBrainstorm_then_def)
next
  case Rejected
  from tree_invariant_flag_update[OF assms(1,2), of "\<lambda>n. n\<lparr>isLoading := Some False\<rparr>" "Some False"]
    Rejected
  show ?thesis by (simp add: handleStartBrainstorm_then_def catch_reset_def)
qed

subsection \<open>What the guards ensure\<close>

text \<open>
  The guard of \<open>handleExpandNode\<close> on the store the handler captured: for an identifier
  that is no property name of \<open>Object.prototype\<close>, the call returns at once, leaving the
  state as it is, when that store has no such node, or the node is loading there, or has
  children there.
\<close>

lemma guard_returns:
  assumes "nodeId \<notin> set object_prototype_keys"
    and "map_of captured nodeId = None
         \<or> (\<exists>node. map_of captured nodeId = Some node \<and> isLoading node = Some True)
         \<or> (\<exists>node c cs. map_of captured nodeId = Some node \<and> childrenIds node = Some (c # cs))"
  shows "handleExpandNode captured nodeId st = Some (Returned st)"
  using assms by (auto simp: handleExpandNode_def js_get_def)

text \<open>
  A call that has been accepted leaves the node loading in the store, so a second call
  through a handler that captured the store as the first call left it returns at once.
\<close>

lemma second_expand_next_render:
  assumes "handleExpandNode captured nodeId st = Some (Awaiting rq k st1)"
  shows "handleExpandNode (nodes st1) nodeId st1 = Some (Returned st1)
     \<and> expand_twice captured (nodes st1) nodeId (r # rs) st
          = Some (1, handleExpandNode_then k (fst r) (snd r) st1)"
proof -
  from handleExpandNode_AwaitingD[OF assms]
  have st1: "st1 = st\<lparr>focusedNodeId := Some nodeId, nodes := handleExpandNode_loading nodeId (nodes st)\<rparr>"
    by blast
  have "\<exists>m. map_of (nodes st1) nodeId = Some m \<and> isLoading m = Some True"
    by (simp add: st1 loading_lookup)
  then have second: "handleExpandNode (nodes st1) nodeId st1 = Some (Returned st1)"
    by (auto simp: handleExpandNode_def)
  have "expand_twice captured (nodes st1) nodeId (r # rs) st
          = Some (1, handleExpandNode_then k (fst r) (snd r) st1)"
    by (cases r)
       (simp add: expand_twice_def begin_expand_Awaiting[OF assms] begin_expand_Returned[OF second])
  with second show ?thesis by blast
qed

text \<open>
  The click handler of a node ignores the click on a node of depth \<open>MAX_DEPTH\<close> or more.
  In every reachable state a stored record has a depth of at most \<open>MAX_DEPTH\<close> unless it
  is a record without \<open>id\<close>, \<open>parentId\<close> and \<open>depth\<close>, as a response that finds its
  target gone leaves one.
\<close>

lemma click_refused_at_max:
  "childrenIds n = Some cs \<Longrightarrow> depth n = Some (Num d) \<Longrightarrow> MAX_DEPTH \<le> d \<Longrightarrow>
   handleClick n = Some Ignored"
  by (simp add: handleClick_def isMaxDepth_def)

lemma depth_never_above_max:
  assumes "ui_reachable s" and "(k, n) \<in> set (nodes (cur s))"
  shows "depth_at_most_max n \<or> (id' n = None \<and> parentId n = None \<and> depth n = None)"
proof -
  from ui_reachable_ok[OF assms(1)] have "\<forall>(k, n)\<in>set (nodes (cur s)). entry_ok k n"
    by (simp add: ui_ok_def store_ok_def)
  with assms(2) show ?thesis by (auto simp: entry_ok_def depth_at_most_max_def)
qed

section \<open>Claims about the expansion controller\<close>


text \<open>
  C5. Committing an expansion on a node that is in the store creates one new node per
  generated text, in input order and under the fresh identifiers, each with
  \<open>parentId\<close> the expanded node, \<open>depth\<close> the expanded node's depth + 1, no children,
  \<open>isLoading = false\<close> and \<open>isExpanded = false\<close>; the expanded node gets
  \<open>isExpanded = true\<close>, \<open>isLoading = false\<close> and the new identifiers as \<open>childrenIds\<close>;
  nothing else in the state changes. With the empty list the node ends
  \<open>{isLoading: false, isExpanded: true, childrenIds: []}\<close>. The captured \<open>node\<close> is the
  expanded node as the handler read it (same depth as the stored one), and the UUIDs are
  fresh and distinct.
\<close>

theorem commit_expansion:
  assumes "map_of (nodes st) nodeId = Some n"
    and "depth node = depth n" and "depth n = Some (Num d)"
    and "length uuids = length ideas" and "distinct uuids"
    and "set uuids \<inter> set (map fst (nodes st)) = {}"
  shows "handleExpandNode_then (nodeId, node) (Fulfilled ideas) uuids st
           = st\<lparr>nodes := nodes (handleExpandNode_then (nodeId, node) (Fulfilled ideas) uuids st)\<rparr>
     \<and> map fst (nodes (handleExpandNode_then (nodeId, node) (Fulfilled ideas) uuids st))
           = map fst (nodes st) @ uuids
     \<and> map_of (nodes (handleExpandNode_then (nodeId, node) (Fulfilled ideas) uuids st)) nodeId
           = Some (n\<lparr>isExpanded := Some True, isLoading := Some False, childrenIds := Some uuids\<rparr>)
     \<and> (\<forall>i<length ideas.
           map_of (nodes (handleExpandNode_then (nodeId, node) (Fulfilled ideas) uuids st)) (uuids ! i)
           = Some \<lparr>id' = Some (uuids ! i), text' = Some (ideas ! i), parentId = Some (Ref nodeId),
                   depth = Some (Num (d + 1)), isExpanded = Some False, isLoading = Some False,
                   childrenIds = Some []\<rparr>)
     \<and> (\<forall>k. k \<noteq> nodeId \<and> k \<notin> set uuids \<longrightarrow>
           map_of (nodes (handleExpandNode_then (nodeId, node) (Fulfilled ideas) uuids st)) k
           = map_of (nodes st) k)"
proof -
  have mem: "nodeId \<in> set (map fst (nodes st))"
    using assms(1) by (force dest: map_of_SomeD)
  then have notin: "nodeId \<notin> set uuids" using assms(6) by auto
  have nodes_eq: "nodes (handleExpandNode_then (nodeId, node) (Fulfilled ideas) uuids st)
      = commit_ideas nodeId (Num (Suc d)) ideas uuids (nodes st)"
    using assms(2,3) by (simp add: handleExpandNode_then_def js_add1_def)
  have c1: "handleExpandNode_then (nodeId, node) (Fulfilled ideas) uuids st
           = st\<lparr>nodes := nodes (handleExpandNode_then (nodeId, node) (Fulfilled ideas) uuids st)\<rparr>"
    by (simp add: handleExpandNode_then_def)
  have c2: "map fst (commit_ideas nodeId (Num (Suc d)) ideas uuids (nodes st)) = map fst (nodes st) @ uuids"
    using commit_ideas_keys[OF mem assms(4,5,6)] .
  have c3: "map_of (commit_ideas nodeId (Num (Suc d)) ideas uuids (nodes st)) nodeId
     = Some (n\<lparr>isExpanded := Some True, isLoading := Some False, childrenIds := Some uuids\<rparr>)"
    using commit_ideas_parent[OF assms(4) notin] assms(1) by (simp add: spread_def)
  have c4: "\<forall>i<length ideas. map_of (commit_ideas nodeId (Num (Suc d)) ideas uuids (nodes st)) (uuids ! i)
     = Some \<lparr>id' = Some (uuids ! i), text' = Some (ideas ! i), parentId = Some (Ref nodeId),
                   depth = Some (Num (d + 1)), isExpanded = Some False, isLoading = Some False,
                   childrenIds = Some []\<rparr>"
    using commit_ideas_child[OF assms(4) notin assms(5)] by (simp add: new_child_def)
  have c5: "\<forall>k. k \<noteq> nodeId \<and> k \<notin> set uuids \<longrightarrow>
      map_of (commit_ideas nodeId (Num (Suc d)) ideas uuids (nodes st)) k = map_of (nodes st) k"
    using commit_ideas_other[OF assms(4)] by simp
  show ?thesis
    unfolding nodes_eq[symmetric] using c1 c2 c3 c4 c5 unfolding nodes_eq by blast
qed


theorem commit_expansion_witness:
  "map fst (nodes (handleExpandNode_then (''a'', ex_child) (Fulfilled [''B'', ''C'']) [''u1'', ''u2'']
       (ex_state\<lparr>nodes := [(''r'', ex_root), (''a'', ex_child\<lparr>isLoading := Some True\<rparr>)]\<rparr>)))
     = [''r'', ''a'', ''u1'', ''u2'']
   \<and> map_of (nodes (handleExpandNode_then (''a'', ex_child) (Fulfilled [''B'', ''C'']) [''u1'', ''u2'']
       (ex_state\<lparr>nodes := [(''r'', ex_root), (''a'', ex_child\<lparr>isLoading := Some True\<rparr>)]\<rparr>))) ''a''
     = Some (ex_child\<lparr>isExpanded := Some True, isLoading := Some False, childrenIds := Some [''u1'', ''u2'']\<rparr>)
   \<and> map_of (nodes (handleExpandNode_then (''a'', ex_child) (Fulfilled []) []
       (ex_state\<lparr>nodes := [(''r'', ex_root), (''a'', ex_child\<lparr>isLoading := Some True\<rparr>)]\<rparr>))) ''a''
     = Some (ex_child\<lparr>isExpanded := Some True, isLoading := Some False, childrenIds := Some []\<rparr>)"
  using commit_expansion[of "ex_state\<lparr>nodes := [(''r'', ex_root), (''a'', ex_child\<lparr>isLoading := Some True\<rparr>)]\<rparr>"
      "''a''" "ex_child\<lparr>isLoading := Some True\<rparr>" ex_child 1 "[''u1'', ''u2'']" "[''B'', ''C'']"]
    commit_expansion[of "ex_state\<lparr>nodes := [(''r'', ex_root), (''a'', ex_child\<lparr>isLoading := Some True\<rparr>)]\<rparr>"
      "''a''" "ex_child\<lparr>isLoading := Some True\<rparr>" ex_child 1 "[]" "[]"]
  by (simp add: ex_defs)

text \<open>
  C2 (as amended). For a node that is in the store, not loading and without children,
  in a store whose parent links form no cycle (they descend along a rank), and a handler
  that captured the current store, the call is accepted; if the awaited \<open>generateSubIdeas\<close>
  promise rejects, the catch block puts the loading flag back and the state is what it
  was before the call but for the focus (the store is unchanged, no children are
  created). \<open>generateSubIdeas\<close> itself never rejects: when the service call inside it
  throws, it resolves with \<open>["Error generating", "Try again"]\<close>, and the expansion then
  commits these two texts as children of the node, which ends \<open>isExpanded = true\<close>,
  \<open>isLoading = false\<close> with the two new identifiers as \<open>childrenIds\<close>.
\<close>

theorem expand_failure_paths:
  assumes "map_of (nodes st) nodeId = Some n" and "isLoading n = Some False"
    and "childrenIds n = Some []" and "parents_ranked f (nodes st)"
    and "u1 \<noteq> u2" and "{u1, u2} \<inter> set (map fst (nodes st)) = {}"
  shows "\<exists>path.
       handleExpandNode (nodes st) nodeId st =
           Some (Awaiting (Request (text' n) path) (nodeId, n)
             (st\<lparr>focusedNodeId := Some nodeId, nodes := handleExpandNode_loading nodeId (nodes st)\<rparr>))
     \<and> handleExpandNode_then (nodeId, n) Rejected uuids
           (st\<lparr>focusedNodeId := Some nodeId, nodes := handleExpandNode_loading nodeId (nodes st)\<rparr>)
         = st\<lparr>focusedNodeId := Some nodeId\<rparr>
     \<and> (generateContent (text' n) path = Inl e \<longrightarrow>
          (\<exists>st'. handleExpandNode_run generateContent JSON_parse (nodes st) nodeId [u1, u2] st = Some (Inr st')
             \<and> map_of (nodes st') nodeId
                 = Some (n\<lparr>isExpanded := Some True, isLoading := Some False, childrenIds := Some [u1, u2]\<rparr>)
             \<and> map fst (nodes st') = map fst (nodes st) @ [u1, u2]
             \<and> map_option text' (map_of (nodes st') u1) = Some (Some ''Error generating'')
             \<and> map_option text' (map_of (nodes st') u2) = Some (Some ''Try again'')))"
proof -
  from path_loop_total[OF assms(4,1), of "[]"] obtain path where
    path: "path_loop (nodes st) (Some n) [] = Some path" by blast
  let ?st1 = "st\<lparr>focusedNodeId := Some nodeId, nodes := handleExpandNode_loading nodeId (nodes st)\<rparr>"
  have acc: "handleExpandNode (nodes st) nodeId st =
      Some (Awaiting (Request (text' n) path) (nodeId, n) ?st1)"
    using assms(1-3) path by (simp add: handleExpandNode_accept)
  have rej: "handleExpandNode_then (nodeId, n) Rejected uuids ?st1 = st\<lparr>focusedNodeId := Some nodeId\<rparr>"
    using loading_then_reset[OF assms(1,2)] by (simp add: handleExpandNode_then_def)
  have fail: "\<exists>st'. handleExpandNode_run generateContent JSON_parse (nodes st) nodeId [u1, u2] st = Some (Inr st')
             \<and> map_of (nodes st') nodeId
                 = Some (n\<lparr>isExpanded := Some True, isLoading := Some False, childrenIds := Some [u1, u2]\<rparr>)
             \<and> map fst (nodes st') = map fst (nodes st) @ [u1, u2]
             \<and> map_option text' (map_of (nodes st') u1) = Some (Some ''Error generating'')
             \<and> map_option text' (map_of (nodes st') u2) = Some (Some ''Try again'')"
    if gc: "generateContent (text' n) path = Inl e"
  proof -
    let ?ideas = "[''Error generating'', ''Try again'']"
    let ?st' = "handleExpandNode_then (nodeId, n) (Fulfilled ?ideas) [u1, u2] ?st1"
    have mem: "nodeId \<in> set (map fst (nodes st))"
      using assms(1) by (force dest: map_of_SomeD)
    then have notin: "nodeId \<notin> set [u1, u2]" using assms(6) by auto
    have keys1: "map fst (handleExpandNode_loading nodeId (nodes st)) = map fst (nodes st)"
      using loading_keys[OF assms(1)] .
    have m1: "nodeId \<in> set (map fst (handleExpandNode_loading nodeId (nodes st)))"
      using mem by (simp only: keys1)
    have m2: "set [u1, u2] \<inter> set (map fst (handleExpandNode_loading nodeId (nodes st))) = {}"
      using assms(6) by (simp only: keys1) simp
    have gen: "settle (generateSubIdeas generateContent JSON_parse (text' n) path) = Some (Fulfilled ?ideas)"
      using gc by (simp add: generateSubIdeas_def try_catch_def bind_js_def settle_def)
    have run: "handleExpandNode_run generateContent JSON_parse (nodes st) nodeId [u1, u2] st = Some (Inr ?st')"
      by (simp add: handleExpandNode_run_def acc gen)
    have nd: "nodes ?st' = commit_ideas nodeId (js_add1 (depth n)) ?ideas [u1, u2] (nodes ?st1)"
      by (simp add: handleExpandNode_then_def)
    have par: "map_of (nodes ?st') nodeId
        = Some (n\<lparr>isExpanded := Some True, isLoading := Some False, childrenIds := Some [u1, u2]\<rparr>)"
      unfolding nd using commit_ideas_parent[of "[u1, u2]" ?ideas nodeId] notin assms(1)
      by (simp add: loading_lookup spread_def)
    have keys: "map fst (nodes ?st') = map fst (nodes st) @ [u1, u2]"
    proof -
      have "map fst (commit_ideas nodeId (js_add1 (depth n)) ?ideas [u1, u2]
               (handleExpandNode_loading nodeId (nodes st)))
            = map fst (handleExpandNode_loading nodeId (nodes st)) @ [u1, u2]"
        by (rule commit_ideas_keys[OF m1 _ _ m2]) (use assms(5) in simp_all)
      then show ?thesis unfolding nd by (simp add: keys1)
    qed
    have c1: "map_option text' (map_of (nodes ?st') u1) = Some (Some ''Error generating'')"
      unfolding nd using commit_ideas_child[of "[u1, u2]" ?ideas nodeId 0] notin assms(5)
      by (simp add: new_child_def)
    have c2: "map_option text' (map_of (nodes ?st') u2) = Some (Some ''Try again'')"
      unfolding nd using commit_ideas_child[of "[u1, u2]" ?ideas nodeId 1] notin assms(5)
      by (simp add: new_child_def)
    from run par keys c1 c2 show ?thesis by blast
  qed
  from acc rej fail show ?thesis by (intro exI[of _ path] conjI impI)
qed

theorem expand_failure_paths_witness:
  "handleExpandNode_then (''a'', ex_child) Rejected []
           (ex_state\<lparr>focusedNodeId := Some ''a'', nodes := handleExpandNode_loading ''a'' (nodes ex_state)\<rparr>)
         = ex_state\<lparr>focusedNodeId := Some ''a''\<rparr>"
proof -
  have a: "map_of (nodes ex_state) ''a'' = Some ex_child" "isLoading ex_child = Some False"
    "childrenIds ex_child = Some []" "''u1'' \<noteq> ''u2''"
    "{''u1'', ''u2''} \<inter> set (map fst (nodes ex_state)) = {}"
    by (simp_all add: ex_defs)
  from expand_failure_paths[OF a(1,2,3) ex_ranked a(4,5), where uuids = "[]"
      and generateContent = ex_failing_service and e = ServiceError and JSON_parse = ex_parse]
  show ?thesis by (elim exE conjE)
qed

text \<open>
  C2 as stated fails: with a service call that throws, expanding the node \<open>a\<close> of the
  sample tree ends with \<open>a\<close> expanded and two children, not in the state it had.
\<close>

theorem expand_failure_counterexample:
  "map_option (map_sum id nodes)
     (handleExpandNode_run ex_failing_service ex_parse (nodes ex_state) ''a'' [''u1'', ''u2''] ex_state)
   = Some (Inr [(''r'', ex_root),
                (''a'', ex_child\<lparr>isExpanded := Some True, isLoading := Some False,
                                 childrenIds := Some [''u1'', ''u2'']\<rparr>),
                (''u1'', new_child ''u1'' ''Error generating'' ''a'' (Num 2)),
                (''u2'', new_child ''u2'' ''Try again'' ''a'' (Num 2))])"
proof -
  have "settle (generateSubIdeas ex_failing_service ex_parse (Some ''A'') [Some ''Idea''])
      = Some (Fulfilled [''Error generating'', ''Try again''])"
    by (simp add: generateSubIdeas_def try_catch_def bind_js_def settle_def ex_failing_service_def)
  then show ?thesis
    by (simp add: handleExpandNode_run_def handleExpandNode_ex)
       (simp add: handleExpandNode_then_def commit_ideas_def js_add1_def spread_def ex_defs new_child_def)
qed

text \<open>
  C4, evaluated on the code: the node \<open>a\<close> of the sample tree is being expanded, the
  user resets (the store is empty), then the response arrives. The commit updater does
  not look for its target: it writes a record for \<open>a\<close> that has only \<open>isExpanded\<close>,
  \<open>isLoading\<close> and \<open>childrenIds\<close>, and the new child.
\<close>

theorem stale_commit_after_reset:
  "handleExpandNode (nodes ex_state) ''a'' ex_state =
     Some (Awaiting (Request (Some ''A'') [Some ''Idea'']) (''a'', ex_child)
       (ex_state\<lparr>focusedNodeId := Some ''a'',
          nodes := [(''r'', ex_root), (''a'', ex_child\<lparr>isLoading := Some True\<rparr>)]\<rparr>))
   \<and> nodes (handleReset (ex_state\<lparr>focusedNodeId := Some ''a'',
          nodes := [(''r'', ex_root), (''a'', ex_child\<lparr>isLoading := Some True\<rparr>)]\<rparr>)) = []
   \<and> nodes (handleExpandNode_then (''a'', ex_child) (Fulfilled [''B'']) [''u1'']
        (handleReset (ex_state\<lparr>focusedNodeId := Some ''a'',
          nodes := [(''r'', ex_root), (''a'', ex_child\<lparr>isLoading := Some True\<rparr>)]\<rparr>)))
     = [(''a'', \<lparr>id' = None, text' = None, parentId = None, depth = None,
                  isExpanded = Some True, isLoading = Some False, childrenIds = Some [''u1'']\<rparr>),
        (''u1'', \<lparr>id' = Some ''u1'', text' = Some ''B'', parentId = Some (Ref ''a''),
                   depth = Some (Num 2), isExpanded = Some False, isLoading = Some False,
                   childrenIds = Some []\<rparr>)]"
  by (simp add: handleExpandNode_ex)
     (simp add: handleReset_def handleExpandNode_then_def commit_ideas_def js_add1_def spread_def
        empty_obj_def ex_defs new_child_def)


section \<open>Claims about the idea-generation wrapper\<close>

text \<open>
  C9. \<open>generateSubIdeas\<close> never throws or rejects, whatever the service call and
  \<open>JSON.parse\<close> do. When the service call throws, when the parsing throws, or when the
  property read throws (the parsed value is \<open>null\<close>), it resolves with
  \<open>["Error generating", "Try again"]\<close>, which settles the caller's promise as a list of
  two ideas; when the service responds with no text it resolves with the empty list.
\<close>

theorem generateSubIdeas_never_throws:
  "(\<exists>v. generateSubIdeas gc parse c p = Inr v)
   \<and> (gc c p = Inl e \<longrightarrow> generateSubIdeas gc parse c p = Inr error_ideas)
   \<and> (gc c p = Inr (Some t) \<and> t \<noteq> [] \<and> (parse t = Inl e \<or> parse t = Inr JNull) \<longrightarrow>
        generateSubIdeas gc parse c p = Inr error_ideas)
   \<and> (gc c p = Inr None \<or> gc c p = Inr (Some []) \<longrightarrow> generateSubIdeas gc parse c p = Inr (JArr []))
   \<and> settle (Inr error_ideas) = Some (Fulfilled [''Error generating'', ''Try again''])"
proof -
  have a: "\<exists>v. generateSubIdeas gc parse c p = Inr v"
    by (auto simp: generateSubIdeas_def try_catch_def bind_js_def split: sum.splits option.splits)
  have b: "gc c p = Inl e \<longrightarrow> generateSubIdeas gc parse c p = Inr error_ideas"
    by (simp add: generateSubIdeas_def try_catch_def bind_js_def error_ideas_def)
  have c: "gc c p = Inr (Some t) \<and> t \<noteq> [] \<and> (parse t = Inl e \<or> parse t = Inr JNull) \<longrightarrow>
        generateSubIdeas gc parse c p = Inr error_ideas"
    by (auto simp: generateSubIdeas_def try_catch_def bind_js_def error_ideas_def get_ideas_def)
  have d: "gc c p = Inr None \<or> gc c p = Inr (Some []) \<longrightarrow> generateSubIdeas gc parse c p = Inr (JArr [])"
    by (auto simp: generateSubIdeas_def try_catch_def bind_js_def)
  have e: "settle (Inr error_ideas) = Some (Fulfilled [''Error generating'', ''Try again''])"
    by (simp add: settle_def error_ideas_def)
  from a b c d e show ?thesis by blast
qed

theorem generateSubIdeas_never_throws_witness:
  "generateSubIdeas ex_failing_service ex_parse (Some ''A'') [] = Inr error_ideas
   \<and> generateSubIdeas ex_text_service ex_parse (Some ''A'') [] = Inr error_ideas
   \<and> generateSubIdeas ex_silent_service ex_parse (Some ''A'') [] = Inr (JArr [])"
  using generateSubIdeas_never_throws[of ex_failing_service ex_parse "Some ''A''" "[]" ServiceError]
    generateSubIdeas_never_throws[of ex_text_service ex_parse "Some ''A''" "[]" SyntaxError "''{''"]
    generateSubIdeas_never_throws[of ex_silent_service ex_parse "Some ''A''" "[]"]
  by (simp add: ex_failing_service_def ex_text_service_def ex_silent_service_def ex_parse_def)

section \<open>Claims about the layout engine\<close>

text \<open>
  C3. For a store and a \<open>rootId\<close> that form a valid tree, the layout function returns
  a layout whose positioned nodes are, without repetition, exactly the nodes reachable
  from \<open>rootId\<close> (each carrying the record the store holds under its identifier), and
  whose edge list has, without repetition, exactly one entry per pair of a reachable node
  and one of its children, both ends being positioned nodes of the layout.
\<close>

theorem layout_complete:
  assumes V: "valid_tree ns r"
  shows "\<exists>L. calculateTreeLayout ang ns r = Some L
     \<and> distinct (map lid (lnodes L))
     \<and> set (map lid (lnodes L)) = Some ` reach ns r
     \<and> (\<forall>n\<in>set (lnodes L). \<exists>k. lid n = Some k \<and> map_of ns k = Some (ldata n))
     \<and> distinct (map (\<lambda>(s, t). (lid s, lid t)) (links L))
     \<and> set (map (\<lambda>(s, t). (lid s, lid t)) (links L))
         = {(Some p, Some c) | p c pn cs.
              p \<in> reach ns r \<and> map_of ns p = Some pn \<and> childrenIds pn = Some cs \<and> c \<in> set cs}
     \<and> set (links L) \<subseteq> set (lnodes L) \<times> set (lnodes L)"
proof -
  from vt_root[OF V] obtain rt where rt: "(r, rt) \<in> set ns" and prt: "parent_key rt = None" by blast
  let ?L = "\<lambda>hs. \<lparr>lnodes = map (toLayoutNode ang) hs,
                links = map (\<lambda>(p, h). (toLayoutNode ang p, toLayoutNode ang h)) (hlinks hs)\<rparr>"
  from vt_layout[OF V rt, of ang] obtain hs where L: "calculateTreeLayout ang ns r = Some (?L hs)"
    and d: "distinct (map hdata hs)" and s: "set (map hdata hs) = set (map snd ns)"
    and pr: "\<forall>h\<in>set hs. case hparent h of
             None \<Rightarrow> h = HNode rt 0 [] None
           | Some p \<Rightarrow> p \<in> set hs \<and> parent_key (hdata h) = node_key (hdata p)
                        \<and> node_key (hdata p) \<noteq> None"
    and di: "distinct (map (\<lambda>h. id' (hdata h)) hs)" by blast
  have key: "\<exists>k. (k, hdata h) \<in> set ns \<and> id' (hdata h) = Some k \<and> node_key (hdata h) = Some k"
    if "h \<in> set hs" for h
  proof -
    from that have "hdata h \<in> set (map snd ns)" unfolding s[symmetric] by simp
    then obtain k where "(k, hdata h) \<in> set ns" by auto
    with vt_key[OF V this] show ?thesis by blast
  qed
  have c1: "distinct (map lid (lnodes (?L hs)))" using di by (simp add: comp_def)
  have c2: "set (map lid (lnodes (?L hs))) = Some ` reach ns r"
  proof (intro equalityI subsetI)
    fix x assume "x \<in> set (map lid (lnodes (?L hs)))"
    then obtain h where "h \<in> set hs" "x = id' (hdata h)" by auto
    with key[of h] show "x \<in> Some ` reach ns r" unfolding reach_keys[OF V] by force
  next
    fix x assume "x \<in> Some ` reach ns r"
    then obtain k n where kn: "(k, n) \<in> set ns" "x = Some k" unfolding reach_keys[OF V] by auto
    then have "n \<in> set (map hdata hs)" unfolding s by force
    then obtain h where h: "h \<in> set hs" "hdata h = n" by auto
    with vt_key[OF V kn(1)] kn(2) show "x \<in> set (map lid (lnodes (?L hs)))" by force
  qed
  have c3: "\<forall>n\<in>set (lnodes (?L hs)). \<exists>k. lid n = Some k \<and> map_of ns k = Some (ldata n)"
  proof
    fix n assume "n \<in> set (lnodes (?L hs))"
    then obtain h where h: "h \<in> set hs" "n = toLayoutNode ang h" by auto
    from key[OF h(1)] obtain k where "(k, hdata h) \<in> set ns" "id' (hdata h) = Some k" by blast
    with h(2) V show "\<exists>k. lid n = Some k \<and> map_of ns k = Some (ldata n)"
      by (auto simp: vt_lookup)
  qed
  have ids: "map (\<lambda>(s, t). (lid s, lid t)) (links (?L hs))
      = map (\<lambda>(p, h). (id' (hdata p), id' (hdata h))) (hlinks hs)"
    by (simp add: comp_def case_prod_beta)
  have c4: "distinct (map (\<lambda>(s, t). (lid s, lid t)) (links (?L hs)))"
  proof -
    have "map snd (map (\<lambda>(p, h). (id' (hdata p), id' (hdata h))) (hlinks hs))
        = map (\<lambda>h. id' (hdata h)) (map snd (hlinks hs))"
      by (simp add: comp_def case_prod_beta)
    also have "\<dots> = map (\<lambda>h. id' (hdata h)) (filter (\<lambda>h. hparent h \<noteq> None) hs)"
      by (simp only: map_snd_hlinks)
    finally have "distinct (map snd (map (\<lambda>(p, h). (id' (hdata p), id' (hdata h))) (hlinks hs)))"
      using di by (simp add: distinct_map_filter)
    then have "distinct (map (\<lambda>(p, h). (id' (hdata p), id' (hdata h))) (hlinks hs))"
      by (simp only: distinct_map)
    then show ?thesis by (simp only: ids)
  qed
  have c5: "set (map (\<lambda>(s, t). (lid s, lid t)) (links (?L hs)))
         = {(Some p, Some c) | p c pn cs.
              p \<in> reach ns r \<and> map_of ns p = Some pn \<and> childrenIds pn = Some cs \<and> c \<in> set cs}"
    unfolding ids
  proof (intro equalityI subsetI)
    fix x assume "x \<in> set (map (\<lambda>(p, h). (id' (hdata p), id' (hdata h))) (hlinks hs))"
    then obtain p h where x: "x = (id' (hdata p), id' (hdata h))" and h: "h \<in> set hs"
      and hp: "hparent h = Some p" by (auto simp: hlinks_set)
    from pr h hp have p: "p \<in> set hs" and pk: "parent_key (hdata h) = node_key (hdata p)" by force+
    from key[OF p] obtain kp where kp: "(kp, hdata p) \<in> set ns" "id' (hdata p) = Some kp"
      "node_key (hdata p) = Some kp" by blast
    from key[OF h] obtain kh where kh: "(kh, hdata h) \<in> set ns" "id' (hdata h) = Some kh" by blast
    have "kh \<noteq> r"
    proof
      assume "kh = r"
      with kh(1) rt V have "hdata h = rt" by (simp add: vt_lookup)
      with prt pk kp(3) show False by simp
    qed
    from vt_nonroot[OF V kh(1) this] pk kp(3)
    obtain pn cs where "(kp, pn) \<in> set ns" "childrenIds pn = Some cs" "kh \<in> set cs" by auto
    moreover from this(1) V have "map_of ns kp = Some pn" by (simp add: vt_lookup)
    moreover have "kp \<in> reach ns r" unfolding reach_keys[OF V] using kp(1) by force
    ultimately show "x \<in> {(Some p, Some c) | p c pn cs.
              p \<in> reach ns r \<and> map_of ns p = Some pn \<and> childrenIds pn = Some cs \<and> c \<in> set cs}"
      using x kp(2) kh(2) by blast
  next
    fix x assume "x \<in> {(Some p, Some c) | p c pn cs.
              p \<in> reach ns r \<and> map_of ns p = Some pn \<and> childrenIds pn = Some cs \<and> c \<in> set cs}"
    then obtain p c pn cs where x: "x = (Some p, Some c)" and pn: "map_of ns p = Some pn"
      and cs: "childrenIds pn = Some cs" "c \<in> set cs" by blast
    from pn have pm: "(p, pn) \<in> set ns" by (rule map_of_SomeD)
    from vt_children[OF V pm cs] obtain cn where cn: "(c, cn) \<in> set ns" "parentId cn = Some (Ref p)"
      by blast
    have "p \<noteq> []" using vt_key[OF V pm] by simp
    with cn(2) have pkc: "parent_key cn = Some p" by (simp add: parent_key_def)
    have "cn \<in> set (map hdata hs)" unfolding s using cn(1) by force
    then obtain h where h: "h \<in> set hs" "hdata h = cn" by auto
    have "hparent h \<noteq> None"
    proof
      assume "hparent h = None"
      with pr h(1) have "h = HNode rt 0 [] None" by force
      with h(2) prt pkc show False by simp
    qed
    then obtain ph where ph: "hparent h = Some ph" by blast
    with pr h(1) have php: "ph \<in> set hs" "parent_key (hdata h) = node_key (hdata ph)" by force+
    from key[OF php(1)] obtain kp where kp: "(kp, hdata ph) \<in> set ns" "id' (hdata ph) = Some kp"
      "node_key (hdata ph) = Some kp" by blast
    with php(2) h(2) pkc have "kp = p" by simp
    with kp(2) have "id' (hdata ph) = Some p" by simp
    moreover have "id' (hdata h) = Some c" using vt_key[OF V cn(1)] h(2) by simp
    moreover have "(ph, h) \<in> set (hlinks hs)" using h(1) ph by (simp add: hlinks_set)
    ultimately show "x \<in> set (map (\<lambda>(p, h). (id' (hdata p), id' (hdata h))) (hlinks hs))"
      using x by force
  qed
  have c6: "set (links (?L hs)) \<subseteq> set (lnodes (?L hs)) \<times> set (lnodes (?L hs))"
  proof
    fix x assume "x \<in> set (links (?L hs))"
    then obtain p h where x: "x = (toLayoutNode ang p, toLayoutNode ang h)"
      and h: "h \<in> set hs" "hparent h = Some p" by (auto simp: hlinks_set)
    with pr have "p \<in> set hs" by force
    with x h(1) show "x \<in> set (lnodes (?L hs)) \<times> set (lnodes (?L hs))" by simp
  qed
  from L c1 c2 c3 c4 c5 c6 show ?thesis by blast
qed

theorem layout_complete_witness:
  "valid_tree (nodes ex_state) ''r''
   \<and> (\<exists>L. calculateTreeLayout (\<lambda>p. 0) (nodes ex_state) ''r'' = Some L
         \<and> set (map lid (lnodes L)) = Some ` reach (nodes ex_state) ''r''
         \<and> set (map (\<lambda>(s, t). (lid s, lid t)) (links L))
            = {(Some p, Some c) | p c pn cs.
                p \<in> reach (nodes ex_state) ''r'' \<and> map_of (nodes ex_state) p = Some pn
                \<and> childrenIds pn = Some cs \<and> c \<in> set cs})"
proof -
  have v: "valid_tree (nodes ex_state) ''r''" by (rule ex_valid_tree)
  from layout_complete[OF v, of "\<lambda>p. 0"]
  obtain L where "calculateTreeLayout (\<lambda>p. 0) (nodes ex_state) ''r'' = Some L"
    and "set (map lid (lnodes L)) = Some ` reach (nodes ex_state) ''r''"
    and "set (map (\<lambda>(s, t). (lid s, lid t)) (links L))
            = {(Some p, Some c) | p c pn cs.
                p \<in> reach (nodes ex_state) ''r'' \<and> map_of (nodes ex_state) p = Some pn
                \<and> childrenIds pn = Some cs \<and> c \<in> set cs}"
    by (elim exE conjE)
  with v show ?thesis by (intro conjI exI[of _ L])
qed



section \<open>Claims about the reachable states\<close>

text \<open>
  C10, evaluated on the code: the state after the user clicked \<open>a\<close>, pressed reset, and
  the response for \<open>a\<close> arrived is reachable through the user interface, and the record
  its store holds for \<open>a\<close> has no depth at all, so not every record of a reachable store
  has a depth of at most \<open>MAX_DEPTH\<close>.
\<close>

theorem stale_commit_leaves_no_depth:
  "ui_reachable ex_stale
   \<and> map_option depth (map_of (nodes (cur ex_stale)) ''a'') = Some None
   \<and> \<not> list_all (\<lambda>(k, n). depth_at_most_max n) (nodes (cur ex_stale))"
proof -
  have "map_option depth (map_of (nodes (cur ex_stale)) ''a'') = Some None
      \<and> \<not> list_all (\<lambda>(k, n). depth_at_most_max n) (nodes (cur ex_stale))"
    by (simp add: ex_stale_def depth_at_most_max_def)
  with ex_stale_reachable show ?thesis by simp
qed

text \<open>
  C8, evaluated on the code: the state after the user clicked \<open>a\<close>, pressed reset, and the
  response for \<open>a\<close> arrived is reachable, and its store breaks the tree invariant: it
  is not empty, no record has \<open>parentId = null\<close>, and the new child's parent has no depth.
\<close>

theorem stale_commit_breaks_invariant:
  "ui_reachable ex_stale \<and> \<not> tree_invariant (nodes (cur ex_stale))"
proof -
  have "\<not> tree_invariant (nodes (cur ex_stale))"
    by (simp add: tree_invariant_def ex_stale_def)
  with ex_stale_reachable show ?thesis by simp
qed

end
